theory Spec2Isabelle
  imports Complex_Main "HOL-Library.Extended_Nat"
begin

chapter \<open>The model\<close>

section \<open>JavaScript numbers\<close>

text \<open>
  A JavaScript number is a finite value, one of the two infinities, or NaN. Finite values
  are taken as exact reals: rounding of IEEE doubles and the sign of zero are not modelled.
\<close>

datatype jsnum = JFin real | JPosInf | JNegInf | JNaN

text \<open>\<^verbatim>\<open>Number.isFinite(x)\<close> on a number.\<close>

fun isFinite :: "jsnum \<Rightarrow> bool" where
  "isFinite (JFin r) = True"
| "isFinite JPosInf = False"
| "isFinite JNegInf = False"
| "isFinite JNaN = False"

text \<open>\<^verbatim>\<open>Math.trunc\<close> on a finite value: rounding towards zero.\<close>

definition trunc_real :: "real \<Rightarrow> int" where
  "trunc_real r = (if 0 \<le> r then \<lfloor>r\<rfloor> else \<lceil>r\<rceil>)"

fun js_trunc :: "jsnum \<Rightarrow> jsnum" where
  "js_trunc (JFin r) = JFin (of_int (trunc_real r))"
| "js_trunc JPosInf = JPosInf"
| "js_trunc JNegInf = JNegInf"
| "js_trunc JNaN = JNaN"

text \<open>\<^verbatim>\<open>Math.max(0, x)\<close>: NaN is contagious, minus infinity loses against 0.\<close>

fun js_max0 :: "jsnum \<Rightarrow> jsnum" where
  "js_max0 (JFin r) = JFin (max 0 r)"
| "js_max0 JPosInf = JPosInf"
| "js_max0 JNegInf = JFin 0"
| "js_max0 JNaN = JNaN"

text \<open>
  \<^verbatim>\<open>a / b\<close> for an integer sum \<open>a\<close> and a non-negative integer count \<open>b\<close>:
  \<open>0 / 0\<close> is NaN and \<open>a / 0\<close> is an infinity with the sign of \<open>a\<close>.
\<close>

definition js_div :: "int \<Rightarrow> nat \<Rightarrow> jsnum" where
  "js_div a b =
     (if b = 0 then (if a = 0 then JNaN else if 0 < a then JPosInf else JNegInf)
      else JFin (real_of_int a / real b))"

text \<open>\<^verbatim>\<open>x || 0\<close>: the falsy numbers are 0 and NaN.\<close>

fun js_or0 :: "jsnum \<Rightarrow> jsnum" where
  "js_or0 (JFin r) = (if r = 0 then JFin 0 else JFin r)"
| "js_or0 JPosInf = JPosInf"
| "js_or0 JNegInf = JNegInf"
| "js_or0 JNaN = JFin 0"

section \<open>Sets in insertion order\<close>

text \<open>
  A JavaScript \<^verbatim>\<open>Set\<close> iterates in insertion order: it is a list without duplicates,
  \<^verbatim>\<open>add\<close> appends an absent element and \<^verbatim>\<open>delete\<close> removes it.
\<close>

definition set_add :: "'a \<Rightarrow> 'a list \<Rightarrow> 'a list" where
  "set_add x xs = (if x \<in> set xs then xs else xs @ [x])"

definition set_delete :: "'a \<Rightarrow> 'a list \<Rightarrow> 'a list" where
  "set_delete x xs = removeAll x xs"

section \<open>The validated error handling policy\<close>

text \<open>
  After validation the three numeric fields are \<^verbatim>\<open>Math.max(0, Math.trunc(value))\<close> of a
  number that is not NaN: a natural number or plus infinity.
\<close>

record errorHandlingPolicy =
  retryLimit :: enat
  retryDistinctFlows :: bool
  skipPageIfPossible :: bool
  maxTotalPageFails :: enat
  maxConsecutivePageFails :: enat

definition DEFAULT_errorHandlingPolicy :: errorHandlingPolicy where
  "DEFAULT_errorHandlingPolicy =
     \<lparr> retryLimit = 2, retryDistinctFlows = True, skipPageIfPossible = False,
       maxTotalPageFails = \<infinity>, maxConsecutivePageFails = \<infinity> \<rparr>"

section \<open>The fail counter (\<^verbatim>\<open>_initFailCounter\<close>)\<close>

record failCounter =
  pageFailTimeline :: "int option list"
  totalPageFails :: nat
  consecutivePageFails :: nat

definition initFailCounter :: failCounter where
  "initFailCounter = \<lparr> pageFailTimeline = [], totalPageFails = 0, consecutivePageFails = 0 \<rparr>"

definition canSkipPage :: "errorHandlingPolicy \<Rightarrow> failCounter \<Rightarrow> bool" where
  "canSkipPage pol fc \<longleftrightarrow>
     skipPageIfPossible pol \<and>
     enat (totalPageFails fc) \<le> maxTotalPageFails pol \<and>
     enat (consecutivePageFails fc) \<le> maxConsecutivePageFails pol"

text \<open>
  \<^verbatim>\<open>pageFailTimeline[pageFailTimeline.length - 1]\<close> is \<^verbatim>\<open>undefined\<close> on the empty
  timeline and on a timeline that ends with a separator.
\<close>

definition timeline_last :: "int option list \<Rightarrow> int option" where
  "timeline_last tline = (if tline = [] then None else last tline)"

definition fc_success :: "failCounter \<Rightarrow> failCounter" where
  "fc_success fc =
     (let fc1 = (if timeline_last (pageFailTimeline fc) \<noteq> None
                 then fc\<lparr> pageFailTimeline := pageFailTimeline fc @ [None] \<rparr> else fc)
      in fc1\<lparr> consecutivePageFails := 0 \<rparr>)"

text \<open>\<^verbatim>\<open>fail(page?)\<close> returns whether no more pages can be skipped, and the updated counter.\<close>

definition fc_fail :: "errorHandlingPolicy \<Rightarrow> int option \<Rightarrow> failCounter \<Rightarrow> bool \<times> failCounter" where
  "fc_fail pol page fc =
     (let fc1 = (case page of
                   Some p \<Rightarrow> fc\<lparr> pageFailTimeline := pageFailTimeline fc @ [Some p] \<rparr>
                 | None \<Rightarrow> fc);
          fc2 = fc1\<lparr> totalPageFails := totalPageFails fc1 + 1 \<rparr>;
          fc3 = fc2\<lparr> consecutivePageFails := consecutivePageFails fc2 + 1 \<rparr>
      in (\<not> canSkipPage pol fc3, fc3))"

text \<open>
  The loop of \<^verbatim>\<open>complete(lastPage)\<close> over the timeline; the accumulator is
  (\<^verbatim>\<open>totalPageFails\<close>, \<^verbatim>\<open>consecutivePageFails\<close>, \<^verbatim>\<open>currentConsPageFails\<close>).
\<close>

fun complete_loop :: "real \<Rightarrow> int option list \<Rightarrow> nat \<times> nat \<times> nat \<Rightarrow> nat \<times> nat \<times> nat" where
  "complete_loop lastPage [] acc = acc"
| "complete_loop lastPage (None # rest) (t, c, cur) =
     complete_loop lastPage rest (t, (if cur > c then cur else c), 0)"
| "complete_loop lastPage (Some page # rest) (t, c, cur) =
     (let (t1, cur1) = (if real_of_int page \<le> lastPage then (t + 1, cur + 1) else (t, cur))
      in if rest \<noteq> [] then complete_loop lastPage rest (t1, c, cur1)
         else complete_loop lastPage rest (t1, (if cur1 > c then cur1 else c), 0))"

definition fc_complete :: "errorHandlingPolicy \<Rightarrow> real option \<Rightarrow> failCounter \<Rightarrow> bool \<times> failCounter" where
  "fc_complete pol lastPage fc =
     (let fc1 = (case lastPage of
                   Some lp \<Rightarrow>
                     (case complete_loop lp (pageFailTimeline fc) (0, 0, 0) of
                        (t, c, cur) \<Rightarrow> fc\<lparr> totalPageFails := t, consecutivePageFails := c \<rparr>)
                 | None \<Rightarrow> fc)
      in (canSkipPage pol fc1, fc1))"

section \<open>The summary accumulator (\<^verbatim>\<open>CycleSummaryHelper\<close>)\<close>

datatype avg_type = AvgAll | AvgSuccessful | AvgFailed

text \<open>
  Timings are differences of \<^verbatim>\<open>Date.now()\<close>: integers. Each average is kept as the pair
  (sum, count). \<^verbatim>\<open>totalPageCount\<close> is a finite number (the TotalPages driver stores what
  \<^verbatim>\<open>resolveTotalPages\<close> returned).
\<close>

record cycleSummaryHelper =
  completed :: bool
  totalPageCount :: real
  failedPageList :: "int list"
  totalErrorCount :: nat
  startedAt :: int
  total :: int
  avg_all :: "int \<times> nat"
  avg_successful :: "int \<times> nat"
  avg_failed :: "int \<times> nat"

text \<open>The constructor; \<open>now\<close> is the value of \<^verbatim>\<open>Date.now()\<close>.\<close>

definition new_CycleSummaryHelper :: "int \<Rightarrow> cycleSummaryHelper" where
  "new_CycleSummaryHelper now =
     \<lparr> completed = False, totalPageCount = 0, failedPageList = [], totalErrorCount = 0,
       startedAt = now, total = 0,
       avg_all = (0, 0), avg_successful = (0, 0), avg_failed = (0, 0) \<rparr>"

definition setTotalTime :: "int \<Rightarrow> cycleSummaryHelper \<Rightarrow> cycleSummaryHelper" where
  "setTotalTime now h = h\<lparr> total := now - startedAt h \<rparr>"

definition bump_timing :: "int \<Rightarrow> int \<times> nat \<Rightarrow> int \<times> nat" where
  "bump_timing time timing = (fst timing + time, snd timing + 1)"

fun addAvgTiming :: "avg_type \<Rightarrow> int \<Rightarrow> cycleSummaryHelper \<Rightarrow> cycleSummaryHelper" where
  "addAvgTiming AvgAll time h = h\<lparr> avg_all := bump_timing time (avg_all h) \<rparr>"
| "addAvgTiming AvgSuccessful time h = h\<lparr> avg_successful := bump_timing time (avg_successful h) \<rparr>"
| "addAvgTiming AvgFailed time h = h\<lparr> avg_failed := bump_timing time (avg_failed h) \<rparr>"

record cycleSummary =
  cs_completed :: bool
  cs_totalPageCount :: real
  cs_failedPageList :: "int list"
  cs_totalErrorCount :: nat
  cs_startedAt :: int
  cs_total :: int
  cs_avg_all :: jsnum
  cs_avg_successful :: jsnum
  cs_avg_failed :: jsnum

definition summarize :: "int \<Rightarrow> cycleSummaryHelper \<Rightarrow> cycleSummary" where
  "summarize now h0 =
     (let h = (if total h0 = 0 then setTotalTime now h0 else h0)
      in \<lparr> cs_completed = completed h,
           cs_totalPageCount = totalPageCount h,
           cs_failedPageList = failedPageList h,
           cs_totalErrorCount = totalErrorCount h,
           cs_startedAt = startedAt h,
           cs_total = total h,
           cs_avg_all = js_or0 (js_div (fst (avg_all h)) (snd (avg_all h))),
           cs_avg_successful = js_or0 (js_div (fst (avg_successful h)) (snd (avg_successful h))),
           cs_avg_failed = js_or0 (js_div (fst (avg_failed h)) (snd (avg_failed h))) \<rparr>)"

text \<open>A sequence of \<^verbatim>\<open>addAvgTiming\<close> calls, and the timings it records for one category.\<close>

definition addAvgTimings :: "(avg_type \<times> int) list \<Rightarrow> cycleSummaryHelper \<Rightarrow> cycleSummaryHelper" where
  "addAvgTimings calls h = foldl (\<lambda>h c. addAvgTiming (fst c) (snd c) h) h calls"

definition recorded :: "avg_type \<Rightarrow> (avg_type \<times> int) list \<Rightarrow> int list" where
  "recorded k calls = map snd (filter (\<lambda>c. fst c = k) calls)"

definition mean :: "int list \<Rightarrow> jsnum" where
  "mean ts = (if ts = [] then JFin 0 else JFin (real_of_int (sum_list ts) / real (length ts)))"

definition avg_pair :: "avg_type \<Rightarrow> cycleSummaryHelper \<Rightarrow> int \<times> nat" where
  "avg_pair k h = (case k of AvgAll \<Rightarrow> avg_all h | AvgSuccessful \<Rightarrow> avg_successful h | AvgFailed \<Rightarrow> avg_failed h)"

definition cs_avg :: "avg_type \<Rightarrow> cycleSummary \<Rightarrow> jsnum" where
  "cs_avg k s = (case k of AvgAll \<Rightarrow> cs_avg_all s | AvgSuccessful \<Rightarrow> cs_avg_successful s | AvgFailed \<Rightarrow> cs_avg_failed s)"

section \<open>The interval computer (\<^verbatim>\<open>_computeInterval\<close>)\<close>

text \<open>
  A validated interval is a number, a two-element range or a function. The validator stores
  \<^verbatim>\<open>Math.max(0, Math.trunc(v))\<close> for every number it accepts, so numbers and range ends are
  integers. A function is called with the global context as receiver and the flow context
  (if any) as argument; it returns a number or throws.
\<close>

datatype call_result = Throws | Returns jsnum

datatype ('g, 'c) interval_value =
  Scalar int
| Range int int
| Fn "'g \<Rightarrow> 'c option \<Rightarrow> call_result"

datatype interval_property = Interval | CycleInterval

record ('g, 'c) interval_options =
  opt_interval :: "('g, 'c) interval_value"
  opt_cycleInterval :: "('g, 'c) interval_value option"

text \<open>\<^verbatim>\<open>this.options[property]\<close>, with the fallback to \<^verbatim>\<open>this.options.interval\<close>.\<close>

definition configured_interval ::
  "('g, 'c) interval_options \<Rightarrow> interval_property \<Rightarrow> ('g, 'c) interval_value" where
  "configured_interval opts property =
     (case (case property of Interval \<Rightarrow> Some (opt_interval opts)
                           | CycleInterval \<Rightarrow> opt_cycleInterval opts) of
        None \<Rightarrow> opt_interval opts
      | Some v \<Rightarrow> v)"

text \<open>
  The branch for a function: the call, the coercion \<^verbatim>\<open>Math.max(0, Math.trunc(...))\<close>, the
  finiteness test on the coerced value, and the default range after an error.
\<close>

definition resolve_function ::
  "('g \<Rightarrow> 'c option \<Rightarrow> call_result) \<Rightarrow> 'g \<Rightarrow> 'c option \<Rightarrow> ('g, 'c) interval_value" where
  "resolve_function f globalContext ctx =
     (case f globalContext ctx of
        Throws \<Rightarrow> Range 1000 2000
      | Returns x \<Rightarrow>
          (case js_max0 (js_trunc x) of
             JFin v \<Rightarrow> Scalar \<lfloor>v\<rfloor>
           | _ \<Rightarrow> Range 1000 2000))"

text \<open>
  \<^verbatim>\<open>Math.floor(Math.random() * (b - a + 1)) + a\<close>; \<open>rnd\<close> is the value of
  \<^verbatim>\<open>Math.random()\<close>, a real in \<open>[0, 1)\<close>.
\<close>

definition draw :: "real \<Rightarrow> int \<Rightarrow> int \<Rightarrow> int" where
  "draw rnd a b = \<lfloor>rnd * real_of_int (b - a + 1)\<rfloor> + a"

definition computeInterval ::
  "('g, 'c) interval_options \<Rightarrow> 'g \<Rightarrow> real \<Rightarrow> interval_property \<Rightarrow> 'c option \<Rightarrow> int" where
  "computeInterval opts globalContext rnd property ctx =
     (let interval1 = configured_interval opts property;
          interval2 = (case interval1 of
                         Fn f \<Rightarrow> resolve_function f globalContext ctx
                       | _ \<Rightarrow> interval1)
      in case interval2 of
           Range a b \<Rightarrow> draw rnd a b
         | Scalar n \<Rightarrow> n
         | Fn f \<Rightarrow> 0)"

section \<open>The sleeper (\<^verbatim>\<open>sleep\<close>)\<close>

text \<open>
  The promise returned by \<^verbatim>\<open>sleep(ms, signal?)\<close> and what it has registered: the \<^verbatim>\<open>abort\<close>
  listener on the signal, and the timer with the time that is left on it. Two things can
  happen to it: time passes, and the signal fires its \<^verbatim>\<open>abort\<close> event.
\<close>

record sleep_state =
  has_signal :: bool
  listener :: bool
  timer :: "int option"
  settled :: "bool option"

datatype sleep_event = Elapse nat | AbortFires

text \<open>\<^verbatim>\<open>resolve(v)\<close>: only the first call settles the promise.\<close>

definition resolve :: "bool \<Rightarrow> sleep_state \<Rightarrow> sleep_state" where
  "resolve v s = (if settled s = None then s\<lparr> settled := Some v \<rparr> else s)"

text \<open>
  The delay that \<^verbatim>\<open>setTimeout(callback, ms)\<close> of Node.js gives the timer: \<^verbatim>\<open>ms\<close> truncated to an
  integer when it lies between 1 and \<^verbatim>\<open>TIMEOUT_MAX\<close> (2147483647, that is \<open>2^31 - 1\<close>), and
  1 for every other number, NaN and the infinities included.
\<close>

definition TIMEOUT_MAX :: int where
  "TIMEOUT_MAX = 2147483647"

definition setTimeout_delay :: "jsnum \<Rightarrow> int" where
  "setTimeout_delay ms =
     (case ms of
        JFin x \<Rightarrow> if 1 \<le> x \<and> x \<le> real_of_int TIMEOUT_MAX then \<lfloor>x\<rfloor> else 1
      | _ \<Rightarrow> 1)"

text \<open>
  The executor of the promise. The signal is absent (\<open>None\<close>) or present, aborted or not.
  \<^verbatim>\<open>ms\<close> is any number; the timer is armed with the delay \<^verbatim>\<open>setTimeout\<close> makes of it.
\<close>

definition sleep :: "jsnum \<Rightarrow> bool option \<Rightarrow> sleep_state" where
  "sleep ms signal =
     (let s0 = \<lparr> has_signal = (signal \<noteq> None), listener = False, timer = None, settled = None \<rparr>
      in case signal of
           Some aborted \<Rightarrow>
             if aborted then resolve True s0
             else s0\<lparr> listener := True, timer := Some (setTimeout_delay ms) \<rparr>
         | None \<Rightarrow> s0\<lparr> timer := Some (setTimeout_delay ms) \<rparr>)"

definition ontimeout :: "sleep_state \<Rightarrow> sleep_state" where
  "ontimeout s =
     (let s1 = resolve False s
      in if has_signal s1 then s1\<lparr> listener := False \<rparr> else s1)"

definition onabort :: "sleep_state \<Rightarrow> sleep_state" where
  "onabort s = (resolve True s)\<lparr> timer := None \<rparr>"

text \<open>
  The timer runs \<^verbatim>\<open>ontimeout\<close> once the time left on it has passed. A listener registered
  with \<^verbatim>\<open>once: true\<close> is removed when the event is dispatched to it.
\<close>

fun sleep_step :: "sleep_state \<Rightarrow> sleep_event \<Rightarrow> sleep_state" where
  "sleep_step s (Elapse d) =
     (case timer s of
        None \<Rightarrow> s
      | Some r \<Rightarrow> if r \<le> int d then ontimeout (s\<lparr> timer := None \<rparr>)
                  else s\<lparr> timer := Some (r - int d) \<rparr>)"
| "sleep_step s AbortFires =
     (if listener s then onabort (s\<lparr> listener := False \<rparr>) else s)"

definition sleep_run :: "sleep_state \<Rightarrow> sleep_event list \<Rightarrow> sleep_state" where
  "sleep_run s evs = foldl sleep_step s evs"

text \<open>The time that passes during a sequence of events.\<close>

fun elapsed :: "sleep_event list \<Rightarrow> nat" where
  "elapsed [] = 0"
| "elapsed (Elapse d # evs) = d + elapsed evs"
| "elapsed (AbortFires # evs) = elapsed evs"

section \<open>Option validation (\<^verbatim>\<open>validateOptions\<close>) and the constructor\<close>

text \<open>
  The values an option can hold. Functions are named: the two default initialisers of
  \<^verbatim>\<open>DEFAULT_OPTIONS\<close> and the functions of the user. Symbols and bigints are left out.
\<close>

datatype fn = DefaultInitThisContext | DefaultInitFlowContext | UserFn nat

datatype jsval =
  VUndefined
| VNull
| VBool bool
| VNumber jsnum
| VString string
| VFunction fn
| VArray "jsval list"
| VObject "(string \<times> jsval) list"

datatype js_type = TUndefined | TObject | TBoolean | TNumber | TString | TFunction

fun typeof :: "jsval \<Rightarrow> js_type" where
  "typeof VUndefined = TUndefined"
| "typeof VNull = TObject"
| "typeof (VBool b) = TBoolean"
| "typeof (VNumber n) = TNumber"
| "typeof (VString s) = TString"
| "typeof (VFunction f) = TFunction"
| "typeof (VArray xs) = TObject"
| "typeof (VObject kvs) = TObject"

text \<open>\<^verbatim>\<open>value[i]\<close> on an array: \<^verbatim>\<open>undefined\<close> beyond its end.\<close>

definition array_get :: "jsval list \<Rightarrow> nat \<Rightarrow> jsval" where
  "array_get xs i = (if i < length xs then xs ! i else VUndefined)"

text \<open>
  \<^verbatim>\<open>value ? value[k] : undefined\<close> for a key \<open>k\<close> of the policy: only an object with
  that property gives a value.
\<close>

fun truthy :: "jsval \<Rightarrow> bool" where
  "truthy VUndefined = False"
| "truthy VNull = False"
| "truthy (VBool b) = b"
| "truthy (VNumber n) = (case n of JFin r \<Rightarrow> r \<noteq> 0 | JNaN \<Rightarrow> False | _ \<Rightarrow> True)"
| "truthy (VString s) = (s \<noteq> [])"
| "truthy (VFunction f) = True"
| "truthy (VArray xs) = True"
| "truthy (VObject kvs) = True"

fun get_property :: "jsval \<Rightarrow> string \<Rightarrow> jsval" where
  "get_property (VObject kvs) k = (case map_of kvs k of Some v \<Rightarrow> v | None \<Rightarrow> VUndefined)"
| "get_property v k = VUndefined"

text \<open>\<^verbatim>\<open>Math.max(1, x)\<close> on a finite integer value.\<close>

fun js_max1 :: "jsnum \<Rightarrow> jsnum" where
  "js_max1 (JFin r) = JFin (max 1 r)"
| "js_max1 JPosInf = JPosInf"
| "js_max1 JNegInf = JFin 1"
| "js_max1 JNaN = JNaN"

text \<open>
  The enum \<^verbatim>\<open>PaginationType\<close>: its members are the numbers 0 to 4, and
  \<^verbatim>\<open>value in PaginationType\<close> holds for a number exactly when it is one of them.
\<close>

datatype paginationType = NoPagination | TotalPages | HasMore | Cursor | ListOfPages

fun PaginationType_value :: "paginationType \<Rightarrow> jsval" where
  "PaginationType_value NoPagination = VNumber (JFin 0)"
| "PaginationType_value TotalPages = VNumber (JFin 1)"
| "PaginationType_value HasMore = VNumber (JFin 2)"
| "PaginationType_value Cursor = VNumber (JFin 3)"
| "PaginationType_value ListOfPages = VNumber (JFin 4)"

definition in_PaginationType :: "jsval \<Rightarrow> bool" where
  "in_PaginationType v \<longleftrightarrow>
     v \<in> set (map PaginationType_value [NoPagination, TotalPages, HasMore, Cursor, ListOfPages])"

text \<open>
  The property names of the options and of the error handling policy: the keys of
  \<^verbatim>\<open>DEFAULT_OPTIONS\<close>, and any other name.
\<close>

datatype option_key =
  Key_interval | Key_intervalStrategy | Key_cycleInterval | Key_cycleIntervalStrategy
| Key_initThisContext | Key_resetThisContext | Key_initFlowContext | Key_resetFlowContext
| Key_responseHandler | Key_summaryHandler | Key_errorHandlingPolicy | Key_logger
| Key_concurrency | Key_removeContextForRedundantFlows | Key_paginationType | Key_fetchHandler
| Key_paginationStart | Key_paginationPrefetch | Key_resolveTotalPages | Key_resolveHasMore
| Key_resolveCursor | Key_resolveList
| Key_other string

datatype policy_key =
  Key_retryLimit | Key_retryDistinctFlows | Key_skipPageIfPossible | Key_maxTotalPageFails
| Key_maxConsecutivePageFails
| Key_otherPolicy string

text \<open>\<^verbatim>\<open>DEFAULT_OPTIONS\<close>, its keys in their order, and the defaults of the policy.\<close>

fun DEFAULT_OPTIONS :: "option_key \<Rightarrow> jsval" where
  "DEFAULT_OPTIONS Key_interval = VArray [VNumber (JFin 1000), VNumber (JFin 2000)]"
| "DEFAULT_OPTIONS Key_intervalStrategy = VString ''dynamic''"
| "DEFAULT_OPTIONS Key_cycleIntervalStrategy = VString ''fixed''"
| "DEFAULT_OPTIONS Key_initThisContext = VFunction DefaultInitThisContext"
| "DEFAULT_OPTIONS Key_resetThisContext = VBool False"
| "DEFAULT_OPTIONS Key_initFlowContext = VFunction DefaultInitFlowContext"
| "DEFAULT_OPTIONS Key_resetFlowContext = VBool False"
| "DEFAULT_OPTIONS Key_logger = VArray [VString ''validationWarning'', VString ''generalError'']"
| "DEFAULT_OPTIONS Key_concurrency = VNumber (JFin 1)"
| "DEFAULT_OPTIONS Key_removeContextForRedundantFlows = VBool True"
| "DEFAULT_OPTIONS Key_paginationType = PaginationType_value NoPagination"
| "DEFAULT_OPTIONS Key_paginationStart = VNumber (JFin 1)"
| "DEFAULT_OPTIONS Key_paginationPrefetch = VBool False"
| "DEFAULT_OPTIONS k = VUndefined"

definition OPTION_KEYS :: "option_key list" where
  "OPTION_KEYS =
     [Key_interval, Key_intervalStrategy, Key_cycleInterval, Key_cycleIntervalStrategy,
      Key_initThisContext, Key_resetThisContext, Key_initFlowContext, Key_resetFlowContext,
      Key_responseHandler, Key_summaryHandler, Key_errorHandlingPolicy, Key_logger,
      Key_concurrency, Key_removeContextForRedundantFlows, Key_paginationType, Key_fetchHandler,
      Key_paginationStart, Key_paginationPrefetch, Key_resolveTotalPages, Key_resolveHasMore,
      Key_resolveCursor, Key_resolveList]"

fun DEFAULT_POLICY :: "policy_key \<Rightarrow> jsval" where
  "DEFAULT_POLICY Key_retryLimit = VNumber (JFin 2)"
| "DEFAULT_POLICY Key_retryDistinctFlows = VBool True"
| "DEFAULT_POLICY Key_skipPageIfPossible = VBool False"
| "DEFAULT_POLICY Key_maxTotalPageFails = VNumber JPosInf"
| "DEFAULT_POLICY Key_maxConsecutivePageFails = VNumber JPosInf"
| "DEFAULT_POLICY k = VUndefined"

definition POLICY_KEYS :: "policy_key list" where
  "POLICY_KEYS =
     [Key_retryLimit, Key_retryDistinctFlows, Key_skipPageIfPossible, Key_maxTotalPageFails,
      Key_maxConsecutivePageFails]"

text \<open>
  The validated options are the target object behind the proxy, with the target of the
  nested proxy of \<^verbatim>\<open>errorHandlingPolicy\<close> (absent until that key is set). A warning is the
  key path and the kind of message given to the logger.
\<close>

record validatedOptions =
  target :: "option_key \<Rightarrow> jsval"
  policy_target :: "(policy_key \<Rightarrow> jsval) option"

datatype message =
  ReadonlyProperty | InvalidNumber | InvalidRange | InvalidStrategy | InvalidValue | UnknownProperty

datatype key_path = OptionPath option_key | PolicyPath policy_key

type_synonym warning = "key_path \<times> message"

definition finite_number :: "jsval \<Rightarrow> bool" where
  "finite_number v = (case v of VNumber n \<Rightarrow> isFinite n | _ \<Rightarrow> False)"

definition coerce0 :: "jsval \<Rightarrow> jsval" where
  "coerce0 v = (case v of VNumber n \<Rightarrow> VNumber (js_max0 (js_trunc n)) | _ \<Rightarrow> v)"

text \<open>
  \<^verbatim>\<open>value ? value[k] : undefined\<close> for a key of the policy: the raw policy is a value, and
  only an object with that property gives something else than \<^verbatim>\<open>undefined\<close>. \<open>policy_name\<close>
  is the property name of a key.
\<close>

fun policy_name :: "policy_key \<Rightarrow> string" where
  "policy_name Key_retryLimit = ''retryLimit''"
| "policy_name Key_retryDistinctFlows = ''retryDistinctFlows''"
| "policy_name Key_skipPageIfPossible = ''skipPageIfPossible''"
| "policy_name Key_maxTotalPageFails = ''maxTotalPageFails''"
| "policy_name Key_maxConsecutivePageFails = ''maxConsecutivePageFails''"
| "policy_name (Key_otherPolicy s) = s"

definition policy_value :: "jsval \<Rightarrow> policy_key \<Rightarrow> jsval" where
  "policy_value v k = (if truthy v then get_property v (policy_name k) else VUndefined)"

text \<open>
  Calling a function value: the default initialisers return a new empty object, a function
  of the user returns a value or throws (\<open>user\<close> says which).
\<close>

datatype call_outcome = Threw | Returned jsval

definition call_function :: "(nat \<Rightarrow> call_outcome) \<Rightarrow> jsval \<Rightarrow> call_outcome" where
  "call_function user f =
     (case f of
        VFunction DefaultInitThisContext \<Rightarrow> Returned (VObject [])
      | VFunction DefaultInitFlowContext \<Rightarrow> Returned (VObject [])
      | VFunction (UserFn n) \<Rightarrow> user n
      | _ \<Rightarrow> Threw)"

text \<open>
  \<^verbatim>\<open>String(value)\<close>, which the trap evaluates to build the message \<^verbatim>\<open>Invalid value "..."\<close>
  before it calls the logger. Only whether the conversion returns matters here, the text
  of a message is not modelled. A primitive and a function always convert. An array
  converts through \<^verbatim>\<open>join\<close>, which converts every element (\<^verbatim>\<open>undefined\<close> and \<^verbatim>\<open>null\<close> give the
  empty string). An object literal is converted by its \<^verbatim>\<open>toString\<close> and then its
  \<^verbatim>\<open>valueOf\<close>: an own property if there is one, else the method of \<^verbatim>\<open>Object.prototype\<close>
  (\<^verbatim>\<open>toString\<close> returns a string, \<^verbatim>\<open>valueOf\<close> returns the object). A method that is not
  callable, or returns an object, is passed over; a method that throws makes the
  conversion throw; when neither gives a primitive the conversion throws a
  \<^verbatim>\<open>TypeError\<close>. \<open>try_method\<close> is \<open>None\<close> for a method that is passed over, else whether it
  returned.
\<close>

definition primitive :: "jsval \<Rightarrow> bool" where
  "primitive v = (case v of VFunction f \<Rightarrow> False | VArray xs \<Rightarrow> False | VObject kvs \<Rightarrow> False | _ \<Rightarrow> True)"

definition try_method :: "(nat \<Rightarrow> call_outcome) \<Rightarrow> jsval \<Rightarrow> bool option" where
  "try_method user m =
     (case m of
        VFunction f \<Rightarrow>
          (case call_function user m of
             Threw \<Rightarrow> Some False
           | Returned v \<Rightarrow> if primitive v then Some True else None)
      | _ \<Rightarrow> None)"

fun stringifiable :: "(nat \<Rightarrow> call_outcome) \<Rightarrow> jsval \<Rightarrow> bool" where
  "stringifiable user (VArray xs) = (\<forall>x \<in> set xs. stringifiable user x)"
| "stringifiable user (VObject kvs) =
     (case map_of kvs ''toString'' of
        None \<Rightarrow> True
      | Some m \<Rightarrow>
          (case try_method user m of
             Some r \<Rightarrow> r
           | None \<Rightarrow>
               (case map_of kvs ''valueOf'' of
                  None \<Rightarrow> False
                | Some m' \<Rightarrow> (case try_method user m' of Some r \<Rightarrow> r | None \<Rightarrow> False))))"
| "stringifiable user v = True"

text \<open>
  What an assignment through the proxy comes to: the \<^verbatim>\<open>set\<close> trap returns \<^verbatim>\<open>true\<close> with the
  target as it is now, or the conversion of the value for the message throws. Both come
  with the warnings given to the logger on the way.
\<close>

datatype 'a assigned = ConversionThrew "warning list" | Assigned 'a "warning list"

text \<open>
  \<^verbatim>\<open>logger(keyPath, `Invalid value "${String(value)}".`)\<close> and
  \<^verbatim>\<open>logger(keyPath, `Invalid interval range "${value.slice(0, 2).join(' - ')}".`)\<close>: the
  message is built first. The other messages quote a number or a string.
\<close>

definition warn_value :: "(nat \<Rightarrow> call_outcome) \<Rightarrow> key_path \<Rightarrow> jsval \<Rightarrow> 'a \<Rightarrow> 'a assigned" where
  "warn_value user path v t =
     (if stringifiable user v then Assigned t [(path, InvalidValue)] else ConversionThrew [])"

definition warn_range :: "(nat \<Rightarrow> call_outcome) \<Rightarrow> key_path \<Rightarrow> jsval list \<Rightarrow> 'a \<Rightarrow> 'a assigned" where
  "warn_range user path xs t =
     (if \<forall>x \<in> set (take 2 xs). stringifiable user x then Assigned t [(path, InvalidRange)]
      else ConversionThrew [])"

text \<open>The \<^verbatim>\<open>set\<close> trap of the nested proxy, with its two groups of keys.\<close>

definition with_policy_default :: "policy_key \<Rightarrow> (policy_key \<Rightarrow> jsval) \<Rightarrow> (policy_key \<Rightarrow> jsval)" where
  "with_policy_default p t = (if typeof (t p) = TUndefined then t(p := DEFAULT_POLICY p) else t)"

definition set_policy_number ::
  "(nat \<Rightarrow> call_outcome) \<Rightarrow> policy_key \<Rightarrow> jsval \<Rightarrow> (policy_key \<Rightarrow> jsval) \<Rightarrow>
     (policy_key \<Rightarrow> jsval) assigned" where
  "set_policy_number user p v t0 =
     (let t = with_policy_default p t0 in
      case v of
        VNumber n \<Rightarrow>
          if n \<noteq> JNaN then Assigned (t(p := VNumber (js_max0 (js_trunc n)))) []
          else Assigned t [(PolicyPath p, InvalidNumber)]
      | VUndefined \<Rightarrow> Assigned (t(p := DEFAULT_POLICY p)) []
      | _ \<Rightarrow> warn_value user (PolicyPath p) v t)"

definition set_policy_boolean ::
  "(nat \<Rightarrow> call_outcome) \<Rightarrow> policy_key \<Rightarrow> jsval \<Rightarrow> (policy_key \<Rightarrow> jsval) \<Rightarrow>
     (policy_key \<Rightarrow> jsval) assigned" where
  "set_policy_boolean user p v t0 =
     (let t = with_policy_default p t0 in
      case v of
        VBool b \<Rightarrow> Assigned (t(p := v)) []
      | VUndefined \<Rightarrow> Assigned (t(p := DEFAULT_POLICY p)) []
      | _ \<Rightarrow> warn_value user (PolicyPath p) v t)"

fun set_policy ::
  "(nat \<Rightarrow> call_outcome) \<Rightarrow> policy_key \<Rightarrow> jsval \<Rightarrow> (policy_key \<Rightarrow> jsval) \<Rightarrow>
     (policy_key \<Rightarrow> jsval) assigned" where
  "set_policy user Key_retryLimit v t = set_policy_number user Key_retryLimit v t"
| "set_policy user Key_maxTotalPageFails v t = set_policy_number user Key_maxTotalPageFails v t"
| "set_policy user Key_maxConsecutivePageFails v t = set_policy_number user Key_maxConsecutivePageFails v t"
| "set_policy user Key_retryDistinctFlows v t = set_policy_boolean user Key_retryDistinctFlows v t"
| "set_policy user Key_skipPageIfPossible v t = set_policy_boolean user Key_skipPageIfPossible v t"
| "set_policy user (Key_otherPolicy s) v t = Assigned t [(PolicyPath (Key_otherPolicy s), UnknownProperty)]"

text \<open>
  \<^verbatim>\<open>for (const k of Object.keys(DEFAULT_OPTIONS.errorHandlingPolicy)) target[p][k] = ...\<close>;
  \<open>ws\<close> are the warnings given to the logger so far. An assignment that throws ends the loop.
\<close>

fun apply_policy ::
  "(nat \<Rightarrow> call_outcome) \<Rightarrow> jsval \<Rightarrow> policy_key list \<Rightarrow> (policy_key \<Rightarrow> jsval) \<Rightarrow> warning list \<Rightarrow>
     (policy_key \<Rightarrow> jsval) assigned" where
  "apply_policy user v [] t ws = Assigned t ws"
| "apply_policy user v (k # ks) t ws =
     (case set_policy user k (policy_value v k) t of
        ConversionThrew ws' \<Rightarrow> ConversionThrew (ws @ ws')
      | Assigned t' ws' \<Rightarrow> apply_policy user v ks t' (ws @ ws'))"

text \<open>
  The \<^verbatim>\<open>set\<close> trap of the proxy: one function for each group of keys of the \<^verbatim>\<open>switch\<close>,
  then the \<^verbatim>\<open>switch\<close> itself. Each takes the key \<open>p\<close>, the value and the validated options
  so far.
\<close>

text \<open>\<^verbatim>\<open>if (typeof target[p] === 'undefined') target[p] = DEFAULT_OPTIONS[p]\<close>\<close>

definition with_default :: "option_key \<Rightarrow> (option_key \<Rightarrow> jsval) \<Rightarrow> (option_key \<Rightarrow> jsval)" where
  "with_default p t = (if typeof (t p) = TUndefined then t(p := DEFAULT_OPTIONS p) else t)"

definition set_paginationType ::
  "option_key \<Rightarrow> jsval \<Rightarrow> validatedOptions \<Rightarrow> validatedOptions assigned" where
  "set_paginationType p v vo =
     (if typeof (target vo p) = TUndefined
      then Assigned (vo\<lparr> target := (target vo)(p := (if in_PaginationType v then v else DEFAULT_OPTIONS p)) \<rparr>) []
      else Assigned vo [(OptionPath p, ReadonlyProperty)])"

definition set_interval ::
  "(nat \<Rightarrow> call_outcome) \<Rightarrow> option_key \<Rightarrow> jsval \<Rightarrow> validatedOptions \<Rightarrow> validatedOptions assigned" where
  "set_interval user p v vo =
     (let t = (if p = Key_interval then with_default p (target vo) else target vo) in
      case v of
        VNumber n \<Rightarrow>
          if isFinite n then Assigned (vo\<lparr> target := t(p := VNumber (js_max0 (js_trunc n))) \<rparr>) []
          else Assigned (vo\<lparr> target := t \<rparr>) [(OptionPath p, InvalidNumber)]
      | VFunction f \<Rightarrow> Assigned (vo\<lparr> target := t(p := v) \<rparr>) []
      | VArray xs \<Rightarrow>
          if finite_number (array_get xs 0) \<and> finite_number (array_get xs 1)
          then Assigned (vo\<lparr> target := t(p := VArray [coerce0 (array_get xs 0), coerce0 (array_get xs 1)]) \<rparr>) []
          else warn_range user (OptionPath p) xs (vo\<lparr> target := t \<rparr>)
      | VUndefined \<Rightarrow>
          if p = Key_interval then Assigned (vo\<lparr> target := t(p := DEFAULT_OPTIONS p) \<rparr>) []
          else Assigned (vo\<lparr> target := t(p := VUndefined) \<rparr>) []
      | _ \<Rightarrow> warn_value user (OptionPath p) v (vo\<lparr> target := t \<rparr>))"

definition set_strategy ::
  "(nat \<Rightarrow> call_outcome) \<Rightarrow> option_key \<Rightarrow> jsval \<Rightarrow> validatedOptions \<Rightarrow> validatedOptions assigned" where
  "set_strategy user p v vo =
     (let t = with_default p (target vo) in
      case v of
        VString s \<Rightarrow>
          if s = ''dynamic'' \<or> s = ''fixed'' then Assigned (vo\<lparr> target := t(p := v) \<rparr>) []
          else Assigned (vo\<lparr> target := t \<rparr>) [(OptionPath p, InvalidStrategy)]
      | VUndefined \<Rightarrow> Assigned (vo\<lparr> target := t(p := DEFAULT_OPTIONS p) \<rparr>) []
      | _ \<Rightarrow> warn_value user (OptionPath p) v (vo\<lparr> target := t \<rparr>))"

definition set_number ::
  "(nat \<Rightarrow> call_outcome) \<Rightarrow> option_key \<Rightarrow> jsval \<Rightarrow> validatedOptions \<Rightarrow> validatedOptions assigned" where
  "set_number user p v vo =
     (let t = with_default p (target vo) in
      case v of
        VNumber n \<Rightarrow>
          if isFinite n
          then Assigned (vo\<lparr> target := t(p := VNumber (if p = Key_concurrency then js_max1 (js_trunc n)
                                                          else js_trunc n)) \<rparr>) []
          else Assigned (vo\<lparr> target := t \<rparr>) [(OptionPath p, InvalidNumber)]
      | VUndefined \<Rightarrow> Assigned (vo\<lparr> target := t(p := DEFAULT_OPTIONS p) \<rparr>) []
      | _ \<Rightarrow> warn_value user (OptionPath p) v (vo\<lparr> target := t \<rparr>))"

definition set_boolean ::
  "(nat \<Rightarrow> call_outcome) \<Rightarrow> option_key \<Rightarrow> jsval \<Rightarrow> validatedOptions \<Rightarrow> validatedOptions assigned" where
  "set_boolean user p v vo =
     (let t = with_default p (target vo) in
      case v of
        VBool b \<Rightarrow> Assigned (vo\<lparr> target := t(p := v) \<rparr>) []
      | VUndefined \<Rightarrow> Assigned (vo\<lparr> target := t(p := DEFAULT_OPTIONS p) \<rparr>) []
      | _ \<Rightarrow> warn_value user (OptionPath p) v (vo\<lparr> target := t \<rparr>))"

definition set_context_init ::
  "(nat \<Rightarrow> call_outcome) \<Rightarrow> option_key \<Rightarrow> jsval \<Rightarrow> validatedOptions \<Rightarrow> validatedOptions assigned" where
  "set_context_init user p v vo =
     (let t = with_default p (target vo) in
      case v of
        VFunction f \<Rightarrow> Assigned (vo\<lparr> target := t(p := v) \<rparr>) []
      | VUndefined \<Rightarrow> Assigned (vo\<lparr> target := t(p := DEFAULT_OPTIONS p) \<rparr>) []
      | _ \<Rightarrow> warn_value user (OptionPath p) v (vo\<lparr> target := t \<rparr>))"

definition set_required_function ::
  "(nat \<Rightarrow> call_outcome) \<Rightarrow> option_key \<Rightarrow> jsval \<Rightarrow> validatedOptions \<Rightarrow> validatedOptions assigned" where
  "set_required_function user p v vo =
     (case v of
        VFunction f \<Rightarrow> Assigned (vo\<lparr> target := (target vo)(p := v) \<rparr>) []
      | VUndefined \<Rightarrow> Assigned vo []
      | _ \<Rightarrow> warn_value user (OptionPath p) v vo)"

definition set_optional_function ::
  "(nat \<Rightarrow> call_outcome) \<Rightarrow> option_key \<Rightarrow> jsval \<Rightarrow> validatedOptions \<Rightarrow> validatedOptions assigned" where
  "set_optional_function user p v vo =
     (case v of
        VFunction f \<Rightarrow> Assigned (vo\<lparr> target := (target vo)(p := v) \<rparr>) []
      | VUndefined \<Rightarrow> Assigned (vo\<lparr> target := (target vo)(p := v) \<rparr>) []
      | _ \<Rightarrow> warn_value user (OptionPath p) v vo)"

definition set_errorHandlingPolicy ::
  "(nat \<Rightarrow> call_outcome) \<Rightarrow> option_key \<Rightarrow> jsval \<Rightarrow> validatedOptions \<Rightarrow> validatedOptions assigned" where
  "set_errorHandlingPolicy user p v vo =
     (let pt = (case policy_target vo of None \<Rightarrow> (\<lambda>k. VUndefined) | Some pt \<Rightarrow> pt)
      in case apply_policy user v POLICY_KEYS pt [] of
           ConversionThrew ws \<Rightarrow> ConversionThrew ws
         | Assigned pt' ws \<Rightarrow> Assigned (vo\<lparr> policy_target := Some pt' \<rparr>) ws)"

definition set_logger ::
  "(nat \<Rightarrow> call_outcome) \<Rightarrow> option_key \<Rightarrow> jsval \<Rightarrow> validatedOptions \<Rightarrow> validatedOptions assigned" where
  "set_logger user p v vo =
     (let t = with_default p (target vo) in
      case v of
        VBool b \<Rightarrow> Assigned (vo\<lparr> target := t(p := v) \<rparr>) []
      | VArray xs \<Rightarrow> Assigned (vo\<lparr> target := t(p := v) \<rparr>) []
      | VUndefined \<Rightarrow> Assigned (vo\<lparr> target := t(p := DEFAULT_OPTIONS p) \<rparr>) []
      | _ \<Rightarrow> warn_value user (OptionPath p) v (vo\<lparr> target := t \<rparr>))"

fun set_option ::
  "(nat \<Rightarrow> call_outcome) \<Rightarrow> option_key \<Rightarrow> jsval \<Rightarrow> validatedOptions \<Rightarrow> validatedOptions assigned" where
  "set_option user Key_paginationType v vo = set_paginationType Key_paginationType v vo"
| "set_option user Key_interval v vo = set_interval user Key_interval v vo"
| "set_option user Key_cycleInterval v vo = set_interval user Key_cycleInterval v vo"
| "set_option user Key_intervalStrategy v vo = set_strategy user Key_intervalStrategy v vo"
| "set_option user Key_cycleIntervalStrategy v vo = set_strategy user Key_cycleIntervalStrategy v vo"
| "set_option user Key_concurrency v vo = set_number user Key_concurrency v vo"
| "set_option user Key_paginationStart v vo = set_number user Key_paginationStart v vo"
| "set_option user Key_resetThisContext v vo = set_boolean user Key_resetThisContext v vo"
| "set_option user Key_resetFlowContext v vo = set_boolean user Key_resetFlowContext v vo"
| "set_option user Key_removeContextForRedundantFlows v vo = set_boolean user Key_removeContextForRedundantFlows v vo"
| "set_option user Key_paginationPrefetch v vo = set_boolean user Key_paginationPrefetch v vo"
| "set_option user Key_initThisContext v vo = set_context_init user Key_initThisContext v vo"
| "set_option user Key_initFlowContext v vo = set_context_init user Key_initFlowContext v vo"
| "set_option user Key_fetchHandler v vo = set_required_function user Key_fetchHandler v vo"
| "set_option user Key_resolveTotalPages v vo = set_required_function user Key_resolveTotalPages v vo"
| "set_option user Key_resolveHasMore v vo = set_required_function user Key_resolveHasMore v vo"
| "set_option user Key_resolveCursor v vo = set_required_function user Key_resolveCursor v vo"
| "set_option user Key_resolveList v vo = set_required_function user Key_resolveList v vo"
| "set_option user Key_responseHandler v vo = set_optional_function user Key_responseHandler v vo"
| "set_option user Key_summaryHandler v vo = set_optional_function user Key_summaryHandler v vo"
| "set_option user Key_errorHandlingPolicy v vo = set_errorHandlingPolicy user Key_errorHandlingPolicy v vo"
| "set_option user Key_logger v vo = set_logger user Key_logger v vo"
| "set_option user (Key_other s) v vo = Assigned vo [(OptionPath (Key_other s), UnknownProperty)]"

text \<open>
  \<^verbatim>\<open>for (const k of Object.keys(ALL_OPTIONS_REQUIRED)) validatedOptions[k] = options[k]\<close>;
  the raw options are an object, read by key, and \<open>ws\<close> are the warnings given to the logger
  so far. An assignment that throws ends the loop.
\<close>

fun apply_options ::
  "(nat \<Rightarrow> call_outcome) \<Rightarrow> (option_key \<Rightarrow> jsval) \<Rightarrow> option_key list \<Rightarrow> validatedOptions \<Rightarrow>
     warning list \<Rightarrow> validatedOptions assigned" where
  "apply_options user options [] vo ws = Assigned vo ws"
| "apply_options user options (k # ks) vo ws =
     (case set_option user k (options k) vo of
        ConversionThrew ws' \<Rightarrow> ConversionThrew (ws @ ws')
      | Assigned vo' ws' \<Rightarrow> apply_options user options ks vo' (ws @ ws'))"

datatype create_error =
  PropertyRequired option_key
| ConversionError
| ThisContextNotObject
| InitThisContextThrew

text \<open>
  \<^verbatim>\<open>validateOptions\<close> returns the validated options or throws; the warnings were given to
  the logger before either.
\<close>

definition validateOptions ::
  "(nat \<Rightarrow> call_outcome) \<Rightarrow> (option_key \<Rightarrow> jsval) \<Rightarrow>
     (create_error + validatedOptions) \<times> warning list" where
  "validateOptions user options =
     (case apply_options user options OPTION_KEYS
             \<lparr> target = (\<lambda>k. VUndefined), policy_target = None \<rparr> [] of
        ConversionThrew ws \<Rightarrow> (Inl ConversionError, ws)
      | Assigned vo ws \<Rightarrow>
          (let t = target vo in
           if typeof (t Key_fetchHandler) = TUndefined then Inl (PropertyRequired Key_fetchHandler)
           else if t Key_paginationType = PaginationType_value TotalPages then
             (if typeof (t Key_resolveTotalPages) = TUndefined
              then Inl (PropertyRequired Key_resolveTotalPages) else Inr vo)
           else if t Key_paginationType = PaginationType_value HasMore then
             (if typeof (t Key_resolveHasMore) = TUndefined
              then Inl (PropertyRequired Key_resolveHasMore) else Inr vo)
           else if t Key_paginationType = PaginationType_value Cursor then
             (if typeof (t Key_resolveCursor) = TUndefined
              then Inl (PropertyRequired Key_resolveCursor) else Inr vo)
           else if t Key_paginationType = PaginationType_value ListOfPages then
             (if typeof (t Key_resolveList) = TUndefined
              then Inl (PropertyRequired Key_resolveList) else Inr vo)
           else Inr vo,
           ws))"

text \<open>
  The constructor behind \<^verbatim>\<open>create(options)\<close>: the validated options and the global
  context, or the error thrown; and the validation warnings given to the logger on the way.
\<close>

definition create ::
  "(nat \<Rightarrow> call_outcome) \<Rightarrow> (option_key \<Rightarrow> jsval) \<Rightarrow>
     (create_error + validatedOptions \<times> jsval) \<times> warning list" where
  "create user options =
     (case validateOptions user options of
        (Inl e, ws) \<Rightarrow> (Inl e, ws)
      | (Inr vo, ws) \<Rightarrow>
          (case call_function user (target vo Key_initThisContext) of
             Threw \<Rightarrow> (Inl InitThisContextThrew, ws)
           | Returned globalContext \<Rightarrow>
               if typeof globalContext \<noteq> TObject then (Inl ThisContextNotObject, ws)
               else (Inr (vo, globalContext), ws)))"

text \<open>
  Two sets of options: \<^verbatim>\<open>{ fetchHandler, paginationType: 7 }\<close>, where 7 is no member of the
  enum \<^verbatim>\<open>PaginationType\<close>, and \<^verbatim>\<open>{ fetchHandler, paginationPrefetch: 7 }\<close>.
\<close>

definition options_paginationType_7 :: "option_key \<Rightarrow> jsval" where
  "options_paginationType_7 =
     (\<lambda>k. VUndefined)(Key_fetchHandler := VFunction (UserFn 0), Key_paginationType := VNumber (JFin 7))"

definition options_paginationPrefetch_7 :: "option_key \<Rightarrow> jsval" where
  "options_paginationPrefetch_7 =
     (\<lambda>k. VUndefined)(Key_fetchHandler := VFunction (UserFn 0), Key_paginationPrefetch := VNumber (JFin 7))"

section \<open>The pagination drivers\<close>

text \<open>
  A flow context is an object of the user, or \<^verbatim>\<open>null\<close>, which \<^verbatim>\<open>_initFlowContext\<close> lets through
  as well (its check is \<^verbatim>\<open>typeof ctx !== 'object'\<close>). The scheduler only compares contexts and,
  in one place, tests a context for truthiness, so a context is modelled by its identity,
  an integer: the objects are numbered from 0, and \<open>-1\<close> is \<^verbatim>\<open>null\<close>.

  What an executor works on, and hands back as the retry payload when it fails: \<^verbatim>\<open>true\<close>
  (no pagination), \<^verbatim>\<open>{ page }\<close>, \<^verbatim>\<open>{ cursor, pageNum }\<close> or \<^verbatim>\<open>{ item, index }\<close>.
\<close>

type_synonym ctx = int

definition null_context :: ctx where
  "null_context = - 1"

datatype retry =
  RetryTrue
| RetryPage int
| RetryCursor jsval int
| RetryItem jsval nat

text \<open>The identifier under which a unit of work is reported in \<^verbatim>\<open>failedPageList\<close>.\<close>

fun page_id :: "retry \<Rightarrow> int" where
  "page_id RetryTrue = 1"
| "page_id (RetryPage page) = page"
| "page_id (RetryCursor cursor pageNum) = pageNum"
| "page_id (RetryItem item index) = int index"

text \<open>
  The variables an executor closes over: the position in the pagination, the summary
  helper and the fail counter. \<open>fetchLog\<close> is not in the source: it records every call of
  \<^verbatim>\<open>fetchHandler\<close>, with the context and the unit of work it was called for.
\<close>

record driver =
  nextPage :: int
  lastPage :: "real option"
  nextPageCursor :: jsval
  nextPageNum :: int
  pageListItems :: "jsval list"
  nextPageIndex :: nat
  summaryHelper :: cycleSummaryHelper
  failCounter :: failCounter
  fetchLog :: "(ctx \<times> retry) list"

text \<open>The options a cycle reads, and \<^verbatim>\<open>state.isConcurrencyFixed\<close>; they do not change during a cycle.\<close>

record config =
  paginationType :: paginationType
  concurrency :: nat
  paginationPrefetch :: bool
  paginationStart :: int
  errorHandlingPolicy :: errorHandlingPolicy
  isConcurrencyFixed :: bool

text \<open>
  The variables of a cycle handler as they are when the orchestrator starts; \<open>items\<close> is the
  list \<^verbatim>\<open>resolveList\<close> gave, used by the List kind only. Whether the orchestrator is started
  at all is decided in \<open>start_cycle\<close> below: a List cycle starts on a non-empty list only.
\<close>

definition init_driver :: "config \<Rightarrow> int \<Rightarrow> jsval list \<Rightarrow> driver" where
  "init_driver cfg now items =
     \<lparr> nextPage = paginationStart cfg, lastPage = None, nextPageCursor = VUndefined,
       nextPageNum = 1, pageListItems = items, nextPageIndex = 0,
       summaryHelper =
         (if paginationType cfg = NoPagination
          then (new_CycleSummaryHelper now)\<lparr> totalPageCount := 1 \<rparr>
          else new_CycleSummaryHelper now),
       failCounter = initFailCounter, fetchLog = [] \<rparr>"

text \<open>
  An executor runs up to its first \<^verbatim>\<open>await\<close>, where it has called \<^verbatim>\<open>fetchHandler\<close> and waits
  (\<open>Awaiting\<close>), unless it has returned before (\<open>Finished\<close>, with \<open>None\<close> for \<^verbatim>\<open>false\<close>). Both
  parts of an executor return the driver, whether \<^verbatim>\<open>done()\<close> was called, and a result.
\<close>

datatype exec_status = Awaiting retry | Finished "retry option"

definition call_fetchHandler :: "ctx \<Rightarrow> retry \<Rightarrow> driver \<Rightarrow> driver" where
  "call_fetchHandler ctx work d = d\<lparr> fetchLog := fetchLog d @ [(ctx, work)] \<rparr>"

definition set_completed :: "driver \<Rightarrow> driver" where
  "set_completed d = d\<lparr> summaryHelper := (summaryHelper d)\<lparr> completed := True \<rparr> \<rparr>"

definition exec_begin ::
  "config \<Rightarrow> ctx \<Rightarrow> enat \<Rightarrow> retry option \<Rightarrow> driver \<Rightarrow> driver \<times> bool \<times> exec_status" where
  "exec_begin cfg ctx attempts retry d =
     (case paginationType cfg of
        NoPagination \<Rightarrow> (call_fetchHandler ctx RetryTrue d, True, Awaiting RetryTrue)
      | TotalPages \<Rightarrow>
          (case retry of
             Some r \<Rightarrow> (call_fetchHandler ctx (RetryPage (page_id r)) d, False, Awaiting (RetryPage (page_id r)))
           | None \<Rightarrow>
               (let page = nextPage d;
                    d1 = d\<lparr> nextPage := page + 1 \<rparr>;
                    last = (case lastPage d1 of None \<Rightarrow> False | Some lp \<Rightarrow> lp \<le> real_of_int page);
                    d2 = (if last then set_completed d1 else d1)
                in (call_fetchHandler ctx (RetryPage page) d2, last, Awaiting (RetryPage page))))
      | HasMore \<Rightarrow>
          (case retry of
             Some r \<Rightarrow>
               if (case lastPage d of None \<Rightarrow> False | Some lp \<Rightarrow> lp < real_of_int (page_id r))
               then (d, False, Finished None)
               else (call_fetchHandler ctx (RetryPage (page_id r)) d, False, Awaiting (RetryPage (page_id r)))
           | None \<Rightarrow>
               (let page = nextPage d;
                    d1 = d\<lparr> nextPage := page + 1 \<rparr>
                in (call_fetchHandler ctx (RetryPage page) d1, False, Awaiting (RetryPage page))))
      | Cursor \<Rightarrow>
          (case retry of
             Some r \<Rightarrow> (call_fetchHandler ctx r d, False, Awaiting r)
           | None \<Rightarrow>
               (let work = RetryCursor (nextPageCursor d) (nextPageNum d);
                    d1 = d\<lparr> nextPageNum := nextPageNum d + 1 \<rparr>
                in (call_fetchHandler ctx work d1, False, Awaiting work)))
      | ListOfPages \<Rightarrow>
          (case retry of
             Some r \<Rightarrow> (call_fetchHandler ctx r d, False, Awaiting r)
           | None \<Rightarrow>
               (let index = nextPageIndex d;
                    d1 = d\<lparr> nextPageIndex := index + 1 \<rparr>;
                    last = (length (pageListItems d1) \<le> nextPageIndex d1);
                    d2 = (if last then set_completed d1 else d1)
                in if length (pageListItems d2) \<le> index then (d2, last, Finished None)
                   else (call_fetchHandler ctx (RetryItem (pageListItems d2 ! index) index) d2, last,
                         Awaiting (RetryItem (pageListItems d2 ! index) index)))))"

text \<open>
  What the calls of the user's handlers come to: \<^verbatim>\<open>fetchHandler\<close> threw, the resolver threw,
  or the resolver returned a value (for the kinds without a resolver, \<^verbatim>\<open>fetchHandler\<close>
  returned). Between the two calls the executor changes nothing, so they are one step.
\<close>

datatype outcome = FetchThrew | ResolveThrew | Resolved jsval

text \<open>The bookkeeping shared by the executors after a failed attempt.\<close>

definition count_error :: "int \<Rightarrow> driver \<Rightarrow> driver" where
  "count_error time d =
     d\<lparr> summaryHelper :=
          addAvgTiming AvgFailed time
            ((summaryHelper d)\<lparr> totalErrorCount := totalErrorCount (summaryHelper d) + 1 \<rparr>) \<rparr>"

definition add_failed_page :: "int \<Rightarrow> driver \<Rightarrow> driver" where
  "add_failed_page page d =
     d\<lparr> summaryHelper :=
          (summaryHelper d)\<lparr> failedPageList := set_add page (failedPageList (summaryHelper d)) \<rparr> \<rparr>"

definition add_timing :: "avg_type \<Rightarrow> int \<Rightarrow> driver \<Rightarrow> driver" where
  "add_timing k time d = d\<lparr> summaryHelper := addAvgTiming k time (summaryHelper d) \<rparr>"

text \<open>
  The tail shared by the TotalPages and HasMore executors, from the first
  \<^verbatim>\<open>addAvgTiming\<close> on; \<open>time\<close> is \<^verbatim>\<open>Date.now() - startTime\<close>.
\<close>

definition paged_tail ::
  "config \<Rightarrow> enat \<Rightarrow> int \<Rightarrow> int \<Rightarrow> bool \<Rightarrow> bool \<Rightarrow> driver \<Rightarrow> driver \<times> bool \<times> retry option" where
  "paged_tail cfg attempts page time successful done0 d0 =
     (let d1 = add_timing AvgAll time d0 in
      if successful then
        (let d2 = add_timing AvgSuccessful time d1;
             d3 = d2\<lparr> failCounter := fc_success (failCounter d2) \<rparr>
         in (d3, done0, None))
      else
        (let d2 = count_error time d1 in
         if attempts \<le> 0 then
           (let d3 = add_failed_page page d2;
                r = fc_fail (errorHandlingPolicy cfg) (Some page) (failCounter d3);
                d4 = d3\<lparr> failCounter := snd r \<rparr>
            in (d4, done0 \<or> fst r, Some (RetryPage page)))
         else (d2, done0, Some (RetryPage page))))"

definition exec_end ::
  "config \<Rightarrow> enat \<Rightarrow> retry \<Rightarrow> outcome \<Rightarrow> int \<Rightarrow> driver \<Rightarrow> driver \<times> bool \<times> retry option" where
  "exec_end cfg attempts work out time d =
     (case paginationType cfg of
        NoPagination \<Rightarrow>
          (if out = FetchThrew then
             (let d1 = count_error time d;
                  d2 = (if attempts \<le> 0 then add_failed_page 1 d1 else d1)
              in (add_timing AvgAll time d2, False, Some RetryTrue))
           else
             (let d1 = add_timing AvgSuccessful time (set_completed d)
              in (add_timing AvgAll time d1, False, None)))
      | TotalPages \<Rightarrow>
          (case out of
             Resolved (VNumber (JFin totalPages)) \<Rightarrow>
               paged_tail cfg attempts (page_id work) time True False
                 (d\<lparr> lastPage := Some totalPages,
                     summaryHelper := (summaryHelper d)\<lparr> totalPageCount := totalPages \<rparr> \<rparr>)
           | _ \<Rightarrow> paged_tail cfg attempts (page_id work) time False False d)
      | HasMore \<Rightarrow>
          (case out of
             Resolved hasMore \<Rightarrow>
               if truthy hasMore then paged_tail cfg attempts (page_id work) time True False d
               else
                 (let d1 = set_completed d;
                      d2 = (if (case lastPage d1 of None \<Rightarrow> True | Some lp \<Rightarrow> real_of_int (page_id work) < lp)
                            then d1\<lparr> lastPage := Some (real_of_int (page_id work)),
                                     summaryHelper := (summaryHelper d1)\<lparr> totalPageCount := real_of_int (page_id work) \<rparr> \<rparr>
                            else d1)
                  in paged_tail cfg attempts (page_id work) time True True d2)
           | _ \<Rightarrow> paged_tail cfg attempts (page_id work) time False False d)
      | Cursor \<Rightarrow>
          (case out of
             Resolved resolvedCursor \<Rightarrow>
               (let r = (if resolvedCursor \<noteq> VNull \<and> resolvedCursor \<noteq> VUndefined
                         then (d\<lparr> nextPageCursor := resolvedCursor \<rparr>, False)
                         else (set_completed d, True));
                    d1 = add_timing AvgAll time (fst r)
                in (add_timing AvgSuccessful time d1, snd r, None))
           | _ \<Rightarrow>
               (let d1 = count_error time (add_timing AvgAll time d) in
                if attempts \<le> 0 then (add_failed_page (page_id work) d1, True, Some work)
                else (d1, False, Some work)))
      | ListOfPages \<Rightarrow>
          (if out = FetchThrew then
             (let d1 = count_error time d in
              if attempts \<le> 0 then
                (let d2 = add_failed_page (page_id work) d1;
                     r = fc_fail (errorHandlingPolicy cfg) None (failCounter d2);
                     d3 = d2\<lparr> failCounter := snd r \<rparr>
                 in (add_timing AvgAll time d3, fst r, Some work))
              else (add_timing AvgAll time d1, False, Some work))
           else
             (let d1 = add_timing AvgSuccessful time d;
                  d2 = d1\<lparr> failCounter := fc_success (failCounter d1) \<rparr>
              in (add_timing AvgAll time d2, False, None))))"

text \<open>
  What a cycle handler does once the orchestrator's promise has resolved: the last
  updates of the summary helper, and \<^verbatim>\<open>summarize()\<close>.
\<close>

definition cycle_summary :: "config \<Rightarrow> int \<Rightarrow> driver \<Rightarrow> cycleSummary" where
  "cycle_summary cfg now d =
     (let h = summaryHelper d in
      summarize now
        (case paginationType cfg of
           NoPagination \<Rightarrow> h
         | TotalPages \<Rightarrow>
             h\<lparr> completed := completed h \<and> fst (fc_complete (errorHandlingPolicy cfg) (lastPage d) (failCounter d)) \<rparr>
         | HasMore \<Rightarrow>
             h\<lparr> completed := completed h \<and> fst (fc_complete (errorHandlingPolicy cfg) (lastPage d) (failCounter d)) \<rparr>
         | Cursor \<Rightarrow> h\<lparr> totalPageCount := real_of_int (nextPageNum d - 1) \<rparr>
         | ListOfPages \<Rightarrow>
             h\<lparr> totalPageCount := real (nextPageIndex d),
                completed := completed h \<and> fst (fc_complete (errorHandlingPolicy cfg) None (failCounter d)) \<rparr>))"

section \<open>The flow orchestrator (\<^verbatim>\<open>_startFlowOrchestrator\<close>)\<close>

text \<open>
  A pending retry is an object; \<open>pr_id\<close> stands for its identity (the source finds it in the
  queue with \<^verbatim>\<open>indexOf\<close>). \<open>pr_flows\<close> is its set of contexts, in insertion order.
\<close>

record pendingRetry =
  pr_id :: nat
  pr_retry :: retry
  pr_flows :: "ctx list"
  attemptsLeft :: enat

text \<open>
  A call of \<^verbatim>\<open>handleFlowExecution\<close> that is suspended: in \<^verbatim>\<open>await sleep(...)\<close>; in
  \<^verbatim>\<open>await executor(...)\<close> with the executor waiting for the handlers of the user; or in
  \<^verbatim>\<open>await executor(...)\<close> with the executor returned (its result is \<open>None\<close> for \<^verbatim>\<open>false\<close>).
  \<open>Fetching\<close> and \<open>Returning\<close> keep \<^verbatim>\<open>attemptsLeft\<close>.
\<close>

datatype worker =
  Sleeping "pendingRetry option"
| Fetching enat retry "pendingRetry option"
| Returning enat "retry option" "pendingRetry option"

text \<open>
  The state of one cycle: \<^verbatim>\<open>state.flowsContexts\<close>, the variables of the orchestrator, the
  signal, the calls of \<^verbatim>\<open>startFlows\<close> queued with \<^verbatim>\<open>process.nextTick\<close>, the suspended calls
  of \<^verbatim>\<open>handleFlowExecution\<close>, and the driver. Of \<^verbatim>\<open>flowsLastExecution\<close> only the keys are
  kept: clocks are not modelled.
\<close>

record orchestrator =
  flowsContexts :: "ctx list"
  flows :: "ctx list"
  pendingRetries :: "pendingRetry list"
  flowsLastExecution :: "ctx list"
  firstPageReady :: bool
  executorDone :: bool
  resolved :: bool
  aborted :: bool
  ticks :: nat
  workers :: "ctx \<Rightarrow> worker option"
  next_pr_id :: nat
  drv :: driver

definition init_orchestrator :: "ctx list \<Rightarrow> driver \<Rightarrow> orchestrator" where
  "init_orchestrator ctxs d =
     \<lparr> flowsContexts = ctxs, flows = [], pendingRetries = [], flowsLastExecution = [],
       firstPageReady = False, executorDone = False, resolved = False, aborted = False,
       ticks = 0, workers = (\<lambda>c. None), next_pr_id = 0, drv = d \<rparr>"

definition finish :: "orchestrator \<Rightarrow> orchestrator" where
  "finish s = (if resolved s then s else s\<lparr> resolved := True \<rparr>)"

text \<open>
  The signal fires: \<^verbatim>\<open>finish\<close> is its listener. \<^verbatim>\<open>_forcedStopOnError\<close> comes to the same
  within a cycle: \<^verbatim>\<open>stop(true)\<close> aborts the signal of the cycle.
\<close>

definition abort :: "orchestrator \<Rightarrow> orchestrator" where
  "abort s = finish (s\<lparr> aborted := True \<rparr>)"

text \<open>\<^verbatim>\<open>flows.delete(ctx); process.nextTick(startFlows); return\<close>\<close>

definition release :: "ctx \<Rightarrow> orchestrator \<Rightarrow> orchestrator" where
  "release c s =
     s\<lparr> flows := set_delete c (flows s), ticks := ticks s + 1, workers := (workers s)(c := None) \<rparr>"

text \<open>\<^verbatim>\<open>handleFlowExecution\<close> from the computation of \<^verbatim>\<open>attemptsLeft\<close> to \<^verbatim>\<open>await executor(...)\<close>.\<close>

definition hfe_exec :: "config \<Rightarrow> ctx \<Rightarrow> pendingRetry option \<Rightarrow> orchestrator \<Rightarrow> orchestrator" where
  "hfe_exec cfg c pr s =
     (let attempts = (case pr of Some p \<Rightarrow> attemptsLeft p
                               | None \<Rightarrow> retryLimit (errorHandlingPolicy cfg));
          r = exec_begin cfg c attempts (map_option pr_retry pr) (drv s);
          s1 = s\<lparr> drv := fst r, executorDone := (executorDone s \<or> fst (snd r)) \<rparr>
      in case snd (snd r) of
           Awaiting work \<Rightarrow> s1\<lparr> workers := (workers s1)(c \<mapsto> Fetching attempts work pr) \<rparr>
         | Finished res \<Rightarrow> s1\<lparr> workers := (workers s1)(c \<mapsto> Returning attempts res pr) \<rparr>)"

text \<open>After \<^verbatim>\<open>await sleep(...)\<close>, or where no sleep was needed (\<open>canceled\<close> is \<open>False\<close> then).\<close>

definition hfe_after_sleep ::
  "config \<Rightarrow> bool \<Rightarrow> ctx \<Rightarrow> pendingRetry option \<Rightarrow> orchestrator \<Rightarrow> orchestrator" where
  "hfe_after_sleep cfg canceled c pr s =
     (if canceled \<or> (executorDone s \<and> pr = None) then release c s else hfe_exec cfg c pr s)"

text \<open>
  The start of \<^verbatim>\<open>handleFlowExecution\<close>. Whether the interval left to wait is positive
  depends on \<^verbatim>\<open>_computeInterval\<close> and the clock: \<open>sleeps c\<close> says so for the context \<open>c\<close>.
\<close>

definition hfe_start ::
  "config \<Rightarrow> (ctx \<Rightarrow> bool) \<Rightarrow> ctx \<Rightarrow> pendingRetry option \<Rightarrow> orchestrator \<Rightarrow> orchestrator" where
  "hfe_start cfg sleeps c pr s =
     (if c \<in> set (flowsLastExecution s) then
        (if sleeps c then s\<lparr> workers := (workers s)(c \<mapsto> Sleeping pr) \<rparr>
         else hfe_after_sleep cfg False c pr s)
      else hfe_exec cfg c pr (s\<lparr> flowsLastExecution := set_add c (flowsLastExecution s) \<rparr>))"

text \<open>\<^verbatim>\<open>handleFlowExecution\<close> after \<^verbatim>\<open>await executor(...)\<close>.\<close>

definition hfe_finish ::
  "ctx \<Rightarrow> enat \<Rightarrow> retry option \<Rightarrow> pendingRetry option \<Rightarrow> orchestrator \<Rightarrow> orchestrator" where
  "hfe_finish c attempts res pr s =
     release c
       (case res of
          None \<Rightarrow> s\<lparr> firstPageReady := True \<rparr>
        | Some r \<Rightarrow>
            if 0 < attempts then
              (case pr of
                 Some p \<Rightarrow>
                   s\<lparr> pendingRetries := pendingRetries s @
                        [p\<lparr> pr_retry := r, attemptsLeft := attempts - 1, pr_flows := set_add c (pr_flows p) \<rparr>] \<rparr>
               | None \<Rightarrow>
                   s\<lparr> pendingRetries := pendingRetries s @
                        [\<lparr> pr_id = next_pr_id s, pr_retry = r, pr_flows = set_add c [],
                           attemptsLeft = attempts - 1 \<rparr>],
                      next_pr_id := next_pr_id s + 1 \<rparr>)
            else s)"

text \<open>
  \<^verbatim>\<open>_updateFlowsContexts()\<close> within a cycle. \<^verbatim>\<open>_initFlowContext()\<close> gives a new context, or
  stops the engine (the user's function threw, or returned an array or something that is
  not an object); \<open>inits k\<close> is the result of its \<open>k\<close>-th call in this run of \<^verbatim>\<open>startFlows\<close>.
\<close>

datatype init_result = InitContext ctx | InitStopped

fun top_up :: "(nat \<Rightarrow> init_result) \<Rightarrow> nat \<Rightarrow> nat \<Rightarrow> orchestrator \<Rightarrow> bool \<times> orchestrator" where
  "top_up inits k 0 s = (True, s)"
| "top_up inits k (Suc n) s =
     (case inits k of
        InitContext c \<Rightarrow> top_up inits (k + 1) n (s\<lparr> flowsContexts := flowsContexts s @ [c] \<rparr>)
      | InitStopped \<Rightarrow> (False, abort s))"

text \<open>
  \<^verbatim>\<open>_getConcurrencyOptions()\<close>: whether the kind of pagination supports concurrency, and the
  concurrency it gives, which is 1 for the kinds that do not.
\<close>

definition concurrencySupported :: "config \<Rightarrow> bool" where
  "concurrencySupported cfg \<longleftrightarrow> paginationType cfg \<in> {TotalPages, HasMore, ListOfPages}"

definition getConcurrency :: "config \<Rightarrow> nat" where
  "getConcurrency cfg = (if concurrencySupported cfg then concurrency cfg else 1)"

definition updateFlowsContexts ::
  "config \<Rightarrow> (nat \<Rightarrow> init_result) \<Rightarrow> orchestrator \<Rightarrow> bool \<times> orchestrator" where
  "updateFlowsContexts cfg inits s =
     (if isConcurrencyFixed cfg then (True, s)
      else top_up inits 0 (getConcurrency cfg - length (flowsContexts s)) s)"

text \<open>The concurrency \<^verbatim>\<open>startFlows\<close> works with.\<close>

definition current_concurrency :: "config \<Rightarrow> orchestrator \<Rightarrow> nat" where
  "current_concurrency cfg s =
     (if paginationType cfg = TotalPages \<and> \<not> paginationPrefetch cfg \<and> \<not> firstPageReady s then 1
      else if concurrencySupported cfg \<and> isConcurrencyFixed cfg then length (flowsContexts s)
      else getConcurrency cfg)"

text \<open>A set built by adding the elements of a list one by one.\<close>

definition set_of_list :: "'a list \<Rightarrow> 'a list" where
  "set_of_list xs = foldl (\<lambda>acc x. set_add x acc) [] xs"

text \<open>
  The retry queue of \<^verbatim>\<open>startFlows\<close> under \<^verbatim>\<open>retryDistinctFlows\<close>. An entry is a pending retry
  with its set \<^verbatim>\<open>availableFlows\<close>; \<^verbatim>\<open>compatibilityMap\<close> maps a context to the position of the
  entry that holds it. While the contexts of one pending retry are claimed, its entry is
  the last of the queue, at position \<open>j\<close>; it is pushed for good if it ends up non-empty.
\<close>

type_synonym compatibility = "pendingRetry \<times> ctx list"

definition add_available :: "nat \<Rightarrow> ctx \<Rightarrow> compatibility list \<Rightarrow> compatibility list" where
  "add_available j c q = q[j := (fst (q ! j), set_add c (snd (q ! j)))]"

definition delete_available :: "nat \<Rightarrow> ctx \<Rightarrow> compatibility list \<Rightarrow> compatibility list" where
  "delete_available i c q = q[i := (fst (q ! i), set_delete c (snd (q ! i)))]"

fun claim ::
  "ctx list \<Rightarrow> nat \<Rightarrow> compatibility list \<times> (ctx \<Rightarrow> nat option) \<Rightarrow>
     compatibility list \<times> (ctx \<Rightarrow> nat option)" where
  "claim [] j (q, m) = (q, m)"
| "claim (c # cs) j (q, m) =
     (case m c of
        Some i \<Rightarrow>
          if length (snd (q ! i)) \<le> 1 then claim cs j (q, m)
          else claim cs j (add_available j c (delete_available i c q), m(c \<mapsto> j))
      | None \<Rightarrow> claim cs j (add_available j c q, m(c \<mapsto> j)))"

text \<open>
  The contexts a pending retry may go to; a pending retry that has been on every context
  forgets them first.
\<close>

definition available_for :: "nat \<Rightarrow> ctx list \<Rightarrow> pendingRetry \<Rightarrow> pendingRetry \<times> ctx list" where
  "available_for n freeContexts p =
     (if n \<le> length (pr_flows p) then (p\<lparr> pr_flows := [] \<rparr>, freeContexts)
      else (p, filter (\<lambda>c. c \<notin> set (pr_flows p)) freeContexts))"

text \<open>
  The loop over \<^verbatim>\<open>pendingRetries\<close>. It returns the queue, the pending retries as the loop
  leaves them, and \<^verbatim>\<open>freeFlowsLeft\<close>. \<open>visited\<close> are the pending retries the loop has been through.
\<close>

fun build_queue ::
  "nat \<Rightarrow> ctx list \<Rightarrow> pendingRetry list \<Rightarrow> pendingRetry list \<Rightarrow>
     compatibility list \<times> (ctx \<Rightarrow> nat option) \<Rightarrow> int \<Rightarrow>
     compatibility list \<times> pendingRetry list \<times> int" where
  "build_queue n freeContexts visited [] (q, m) left = (q, visited, left)"
| "build_queue n freeContexts visited (p # ps) (q, m) left =
     (let a = available_for n freeContexts p;
          r = claim (snd a) (length q) (q @ [(fst a, [])], m)
      in if snd (last (fst r)) \<noteq> [] then
           (if left - 1 \<le> 0 then (fst r, visited @ fst a # ps, left - 1)
            else build_queue n freeContexts (visited @ [fst a]) ps r (left - 1))
         else build_queue n freeContexts (visited @ [fst a]) ps (butlast (fst r), snd r) left)"

text \<open>\<^verbatim>\<open>pendingRetries.splice(pendingRetries.indexOf(pendingRetry), 1)\<close>\<close>

fun remove_pending :: "nat \<Rightarrow> pendingRetry list \<Rightarrow> pendingRetry list" where
  "remove_pending i [] = []"
| "remove_pending i (p # ps) = (if pr_id p = i then ps else p # remove_pending i ps)"

text \<open>
  The loop over the retry queue. It returns the state, the free contexts that are left,
  and whether \<^verbatim>\<open>startFlows\<close> goes on: with \<^verbatim>\<open>const [ctx] = availableFlows; if (!ctx)\<close> it
  stops the engine and returns when an entry has no context, or \<^verbatim>\<open>null\<close> as its first one.
\<close>

fun dispatch_retries ::
  "config \<Rightarrow> (ctx \<Rightarrow> bool) \<Rightarrow> compatibility list \<Rightarrow> ctx list \<Rightarrow> orchestrator \<Rightarrow>
     orchestrator \<times> ctx list \<times> bool" where
  "dispatch_retries cfg sleeps [] freeContexts s = (s, freeContexts, True)"
| "dispatch_retries cfg sleeps ((p, available) # rest) freeContexts s =
     (case available of
        [] \<Rightarrow> (abort s, freeContexts, False)
      | c # others \<Rightarrow>
          if c = null_context then (abort s, freeContexts, False)
          else
            dispatch_retries cfg sleeps rest (set_delete c freeContexts)
              (hfe_start cfg sleeps c (Some p)
                 (s\<lparr> pendingRetries := remove_pending (pr_id p) (pendingRetries s),
                     flows := set_add c (flows s) \<rparr>)))"

text \<open>The last loop of \<^verbatim>\<open>startFlows\<close>, over the free contexts.\<close>

fun dispatch_free ::
  "config \<Rightarrow> (ctx \<Rightarrow> bool) \<Rightarrow> ctx list \<Rightarrow> int \<Rightarrow> orchestrator \<Rightarrow> orchestrator" where
  "dispatch_free cfg sleeps [] left s = s"
| "dispatch_free cfg sleeps (c # cs) left s =
     (let shifted = (if retryDistinctFlows (errorHandlingPolicy cfg) then (None, s)
                     else (case pendingRetries s of
                             [] \<Rightarrow> (None, s)
                           | p # ps \<Rightarrow> (Some p, s\<lparr> pendingRetries := ps \<rparr>)));
          pr = fst shifted; s1 = snd shifted
      in if executorDone s1 \<and> pr = None then s1
         else
           (let s2 = hfe_start cfg sleeps c pr (s1\<lparr> flows := set_add c (flows s1) \<rparr>)
            in if left - 1 \<le> 0 then s2 else dispatch_free cfg sleeps cs (left - 1) s2))"

definition startFlows ::
  "config \<Rightarrow> (ctx \<Rightarrow> bool) \<Rightarrow> (nat \<Rightarrow> init_result) \<Rightarrow> orchestrator \<Rightarrow> orchestrator" where
  "startFlows cfg sleeps inits s =
     (if resolved s then s
      else if executorDone s \<and> flows s = [] \<and> pendingRetries s = [] then finish s
      else
        (let u = updateFlowsContexts cfg inits s; s1 = snd u in
         if \<not> fst u then s1
         else
           (let freeFlowsLeft = int (current_concurrency cfg s1) - int (length (flows s1)) in
            if freeFlowsLeft \<le> 0 then s1
            else
              (let freeContexts = set_of_list (filter (\<lambda>c. c \<notin> set (flows s1)) (flowsContexts s1)) in
               if retryDistinctFlows (errorHandlingPolicy cfg) then
                 (let b = build_queue (length (flowsContexts s1)) freeContexts [] (pendingRetries s1)
                            ([], (\<lambda>c. None)) freeFlowsLeft;
                      d = dispatch_retries cfg sleeps (fst b) freeContexts
                            (s1\<lparr> pendingRetries := fst (snd b) \<rparr>)
                  in if \<not> snd (snd d) then fst d
                     else if snd (snd b) \<le> 0 then fst d
                     else dispatch_free cfg sleeps (fst (snd d)) (snd (snd b)) (fst d))
               else dispatch_free cfg sleeps freeContexts freeFlowsLeft s1))))"

text \<open>
  What can happen during a cycle: a queued \<^verbatim>\<open>startFlows\<close> runs; a sleep ends (cancelled only
  if the signal has fired); the handlers of the user settle for the executor of a context;
  \<^verbatim>\<open>handleFlowExecution\<close> goes on after its executor has returned; the signal fires. An
  event that cannot happen in a state has no successor.
\<close>

datatype event =
  Tick "ctx \<Rightarrow> bool" "nat \<Rightarrow> init_result"
| Wake ctx bool
| Settle ctx outcome int
| Continue ctx
| Abort

fun step :: "config \<Rightarrow> orchestrator \<Rightarrow> event \<Rightarrow> orchestrator option" where
  "step cfg s (Tick sleeps inits) =
     (if ticks s = 0 then None else Some (startFlows cfg sleeps inits (s\<lparr> ticks := ticks s - 1 \<rparr>)))"
| "step cfg s (Wake c canceled) =
     (case workers s c of
        Some (Sleeping pr) \<Rightarrow>
          if canceled \<and> \<not> aborted s then None else Some (hfe_after_sleep cfg canceled c pr s)
      | _ \<Rightarrow> None)"
| "step cfg s (Settle c out time) =
     (case workers s c of
        Some (Fetching attempts work pr) \<Rightarrow>
          (let r = exec_end cfg attempts work out time (drv s) in
           Some (s\<lparr> drv := fst r, executorDone := (executorDone s \<or> fst (snd r)),
                    workers := (workers s)(c \<mapsto> Returning attempts (snd (snd r)) pr) \<rparr>))
      | _ \<Rightarrow> None)"
| "step cfg s (Continue c) =
     (case workers s c of
        Some (Returning attempts res pr) \<Rightarrow> Some (hfe_finish c attempts res pr s)
      | _ \<Rightarrow> None)"
| "step cfg s Abort = (if aborted s then None else Some (abort s))"

fun run :: "config \<Rightarrow> orchestrator \<Rightarrow> event list \<Rightarrow> orchestrator option" where
  "run cfg s [] = Some s"
| "run cfg s (e # es) = (case step cfg s e of None \<Rightarrow> None | Some s' \<Rightarrow> run cfg s' es)"

text \<open>
  \<^verbatim>\<open>_startFlowOrchestrator(executor, signal)\<close>: with a signal that is already aborted the
  promise resolves at once; otherwise \<^verbatim>\<open>startFlows()\<close> runs a first time.
\<close>

definition startFlowOrchestrator ::
  "config \<Rightarrow> (ctx \<Rightarrow> bool) \<Rightarrow> (nat \<Rightarrow> init_result) \<Rightarrow> bool \<Rightarrow> ctx list \<Rightarrow> driver \<Rightarrow> orchestrator" where
  "startFlowOrchestrator cfg sleeps inits signal_aborted ctxs d =
     (if signal_aborted then (init_orchestrator ctxs d)\<lparr> aborted := True, resolved := True \<rparr>
      else startFlows cfg sleeps inits (init_orchestrator ctxs d))"

text \<open>
  The head of a cycle handler (\<^verbatim>\<open>_handlePaginationNoneCycle\<close> to \<^verbatim>\<open>_handlePaginationListCycle\<close>):
  the variables of the driver are initialised and the orchestrator is started. The List
  handler first awaits \<^verbatim>\<open>resolveList\<close>, and when that throws, or gives something that is not
  an array, or an empty array, it returns the summary of the new helper at once: no
  orchestrator is started and \<^verbatim>\<open>fetchHandler\<close> is never called. \<open>now\<close> and \<open>later\<close> are the clock
  when the helper is made and when it is summarised; \<open>list\<close> is what \<^verbatim>\<open>resolveList\<close> comes to
  (it is not called for the other kinds).
\<close>

datatype cycle_start = Skipped cycleSummary | Started orchestrator

definition start_cycle ::
  "config \<Rightarrow> (ctx \<Rightarrow> bool) \<Rightarrow> (nat \<Rightarrow> init_result) \<Rightarrow> bool \<Rightarrow> ctx list \<Rightarrow> int \<Rightarrow> int \<Rightarrow>
     call_outcome \<Rightarrow> cycle_start" where
  "start_cycle cfg sleeps inits signal_aborted ctxs now later list =
     (if paginationType cfg = ListOfPages then
        (case list of
           Returned (VArray items) \<Rightarrow>
             if items = [] then Skipped (summarize later (new_CycleSummaryHelper now))
             else Started (startFlowOrchestrator cfg sleeps inits signal_aborted ctxs
                             (init_driver cfg now items))
         | _ \<Rightarrow> Skipped (summarize later (new_CycleSummaryHelper now)))
      else Started (startFlowOrchestrator cfg sleeps inits signal_aborted ctxs
                      (init_driver cfg now [])))"

section \<open>The elementary transitions of a cycle\<close>

text \<open>
  Every event is made of elementary transitions: a queued call of \<^verbatim>\<open>startFlows\<close> is taken
  off; the promise resolves because everything is done; the signal fires; a context is
  added; a pending retry forgets its contexts; a pending retry or a fresh task is handed
  to a free context; a sleep ends; the handlers of the user settle; a worker returns. The
  side conditions are what \<^verbatim>\<open>startFlows\<close> establishes before it takes the transition
  (\<open>step_prims\<close> below proves that). Invariants are proved against these transitions.
\<close>

definition settle :: "config \<Rightarrow> ctx \<Rightarrow> enat \<Rightarrow> retry \<Rightarrow> pendingRetry option \<Rightarrow> outcome \<Rightarrow> int \<Rightarrow>
    orchestrator \<Rightarrow> orchestrator" where
  "settle cfg c attempts work pr out time s =
     (let r = exec_end cfg attempts work out time (drv s) in
      s\<lparr> drv := fst r, executorDone := (executorDone s \<or> fst (snd r)),
         workers := (workers s)(c \<mapsto> Returning attempts (snd (snd r)) pr) \<rparr>)"

inductive prim :: "config \<Rightarrow> orchestrator \<Rightarrow> orchestrator \<Rightarrow> bool" for cfg where
  p_tick: "0 < ticks s \<Longrightarrow> prim cfg s (s\<lparr> ticks := ticks s - 1 \<rparr>)"
| p_finish:
    "\<not> resolved s \<Longrightarrow> executorDone s \<Longrightarrow> flows s = [] \<Longrightarrow> pendingRetries s = [] \<Longrightarrow>
     prim cfg s (finish s)"
| p_abort: "prim cfg s (abort s)"
| p_context:
    "\<not> isConcurrencyFixed cfg \<Longrightarrow> length (flowsContexts s) < getConcurrency cfg \<Longrightarrow>
     prim cfg s (s\<lparr> flowsContexts := flowsContexts s @ [c] \<rparr>)"
| p_forget:
    "retryDistinctFlows (errorHandlingPolicy cfg) \<Longrightarrow> pendingRetries s = xs @ p # ys \<Longrightarrow>
     length (flowsContexts s) \<le> length (pr_flows p) \<Longrightarrow>
     prim cfg s (s\<lparr> pendingRetries := xs @ p\<lparr> pr_flows := [] \<rparr> # ys \<rparr>)"
| p_retry:
    "\<not> resolved s \<Longrightarrow> p \<in> set (pendingRetries s) \<Longrightarrow> c \<notin> set (flows s) \<Longrightarrow>
     c \<in> set (flowsContexts s) \<Longrightarrow> length (flows s) < current_concurrency cfg s \<Longrightarrow>
     (retryDistinctFlows (errorHandlingPolicy cfg) \<longrightarrow> c \<notin> set (pr_flows p)) \<Longrightarrow>
     prim cfg s
       (hfe_start cfg sleeps c (Some p)
          (s\<lparr> pendingRetries := remove1 p (pendingRetries s), flows := set_add c (flows s) \<rparr>))"
| p_fresh:
    "\<not> resolved s \<Longrightarrow> \<not> executorDone s \<Longrightarrow> c \<notin> set (flows s) \<Longrightarrow>
     c \<in> set (flowsContexts s) \<Longrightarrow> length (flows s) < current_concurrency cfg s \<Longrightarrow>
     prim cfg s (hfe_start cfg sleeps c None (s\<lparr> flows := set_add c (flows s) \<rparr>))"
| p_wake:
    "workers s c = Some (Sleeping pr) \<Longrightarrow> (canceled \<longrightarrow> aborted s) \<Longrightarrow>
     prim cfg s (hfe_after_sleep cfg canceled c pr s)"
| p_settle:
    "workers s c = Some (Fetching attempts work pr) \<Longrightarrow>
     prim cfg s (settle cfg c attempts work pr out time s)"
| p_continue:
    "workers s c = Some (Returning attempts res pr) \<Longrightarrow>
     prim cfg s (hfe_finish c attempts res pr s)"

section \<open>Two concrete cycles\<close>

text \<open>
  A TotalPages engine with \<^verbatim>\<open>concurrency = 3\<close>, \<^verbatim>\<open>paginationStart = 1\<close> and every other option
  at its default, on three contexts.
\<close>

definition totalPages_config :: config where
  "totalPages_config =
     \<lparr> paginationType = TotalPages, concurrency = 3, paginationPrefetch = False,
       paginationStart = 1, errorHandlingPolicy = DEFAULT_errorHandlingPolicy,
       isConcurrencyFixed = False \<rparr>"

definition totalPages_start :: orchestrator where
  "totalPages_start =
     startFlowOrchestrator totalPages_config (\<lambda>c. True) (\<lambda>k. InitStopped) False [0, 1, 2]
       (init_driver totalPages_config 0 [])"

text \<open>
  A cycle in which every \<^verbatim>\<open>fetchHandler\<close> call succeeds and \<^verbatim>\<open>resolveTotalPages\<close> returns 5
  every time: page 1 alone first, then pages 2, 3 and 4 on the three contexts, then page 5.
\<close>

definition five_pages :: outcome where
  "five_pages = Resolved (VNumber (JFin 5))"

definition tick :: event where
  "tick = Tick (\<lambda>c. True) (\<lambda>k. InitStopped)"

definition all_succeed :: "event list" where
  "all_succeed =
     [Settle 0 five_pages 10, Continue 0, tick,
      Settle 1 five_pages 10, Settle 2 five_pages 10, Continue 1, Continue 2, tick, tick,
      Wake 0 False, Wake 1 False, Wake 2 False,
      Settle 0 five_pages 10, Settle 1 five_pages 10, Continue 0, Continue 1,
      tick, tick, tick]"

text \<open>What an observer sees of a state: the promise, the busy contexts, the fetches, the summary.\<close>

definition observe ::
  "orchestrator \<Rightarrow> bool \<times> ctx list \<times> retry list \<times> real \<times> int list \<times> bool" where
  "observe s =
     (let summary = cycle_summary totalPages_config 100 (drv s) in
      (resolved s, flows s, map snd (fetchLog (drv s)), cs_totalPageCount summary,
       cs_failedPageList summary, cs_completed summary))"

section \<open>Invariants of a cycle\<close>

text \<open>
  The predicates of the proofs about the scheduler. First the retry queue while
  \<^verbatim>\<open>startFlows\<close> builds it: the contexts of an entry are distinct free contexts its pending retry
  has not been on, and \<^verbatim>\<open>compatibilityMap\<close> maps a context to the one entry that holds it.
\<close>

definition queue_ok :: "ctx list \<Rightarrow> compatibility list \<Rightarrow> (ctx \<Rightarrow> nat option) \<Rightarrow> bool" where
  "queue_ok free q m \<longleftrightarrow>
     (\<forall>i<length q. distinct (snd (q ! i)) \<and> set (snd (q ! i)) \<subseteq> set free \<and>
        set (snd (q ! i)) \<inter> set (pr_flows (fst (q ! i))) = {}) \<and>
     (\<forall>c i. m c = Some i \<longleftrightarrow> i < length q \<and> c \<in> set (snd (q ! i)))"

text \<open>
  The result of the loop over \<^verbatim>\<open>pendingRetries\<close>: a queue as above whose entries have a context
  each and are distinct pending retries of the list the loop leaves, which has the
  identities \<open>ids\<close>; and the entries pushed and \<^verbatim>\<open>freeFlowsLeft\<close> add up to \<open>budget\<close>.
\<close>

definition built ::
  "ctx list \<Rightarrow> nat list \<Rightarrow> int \<Rightarrow> compatibility list \<times> pendingRetry list \<times> int \<Rightarrow> bool" where
  "built free ids budget B \<longleftrightarrow>
     (\<exists>m. queue_ok free (fst B) m) \<and>
     (\<forall>i<length (fst B). snd (fst B ! i) \<noteq> []) \<and>
     distinct (map pr_id (map fst (fst B))) \<and>
     set (map fst (fst B)) \<subseteq> set (fst (snd B)) \<and>
     map pr_id (fst (snd B)) = ids \<and>
     int (length (fst B)) + snd (snd B) = budget \<and> 0 \<le> snd (snd B)"

text \<open>The entries of a retry queue that can be dispatched in a state.\<close>

definition dispatchable :: "config \<Rightarrow> orchestrator \<Rightarrow> compatibility list \<Rightarrow> bool" where
  "dispatchable cfg s queue \<longleftrightarrow>
     (\<forall>e \<in> set queue. snd e \<noteq> [] \<and> fst e \<in> set (pendingRetries s) \<and>
        hd (snd e) \<notin> set (flows s) \<and> hd (snd e) \<in> set (flowsContexts s) \<and>
        hd (snd e) \<notin> set (pr_flows (fst e))) \<and>
     distinct (map (pr_id \<circ> fst) queue) \<and> distinct (map (hd \<circ> snd) queue) \<and>
     distinct (map pr_id (pendingRetries s)) \<and>
     length (flows s) + length queue \<le> current_concurrency cfg s \<and> \<not> resolved s"

text \<open>The pending retry a suspended call holds, and its identity.\<close>

fun held :: "worker \<Rightarrow> pendingRetry option" where
  "held (Sleeping pr) = pr"
| "held (Fetching attempts work pr) = pr"
| "held (Returning attempts res pr) = pr"

definition held_id :: "orchestrator \<Rightarrow> ctx \<Rightarrow> nat option" where
  "held_id s c = (case workers s c of None \<Rightarrow> None | Some w \<Rightarrow> map_option pr_id (held w))"

text \<open>What a call of \<open>hfe_start\<close> or \<open>hfe_after_sleep\<close> comes to: the worker is suspended, or released.\<close>

definition suspended :: "ctx \<Rightarrow> pendingRetry option \<Rightarrow> orchestrator \<Rightarrow> orchestrator \<Rightarrow> bool" where
  "suspended c pr s s' \<longleftrightarrow>
     (\<exists>w. workers s' = (workers s)(c \<mapsto> w) \<and> held w = pr) \<and> flows s' = flows s \<and>
     ticks s' = ticks s"

definition released :: "ctx \<Rightarrow> orchestrator \<Rightarrow> orchestrator \<Rightarrow> bool" where
  "released c s s' \<longleftrightarrow>
     workers s' = (workers s)(c := None) \<and> flows s' = set_delete c (flows s) \<and>
     ticks s' = ticks s + 1"

text \<open>
  What holds in every state of a cycle: the busy contexts are those with a suspended call;
  the pending retries, queued or held, are distinct objects made before; an aborted
  promise is resolved, and a resolved one was aborted or has nothing left to do.
\<close>

definition busy_ok :: "orchestrator \<Rightarrow> bool" where
  "busy_ok s \<longleftrightarrow> distinct (flows s) \<and> dom (workers s) = set (flows s)"

definition ids_ok :: "orchestrator \<Rightarrow> bool" where
  "ids_ok s \<longleftrightarrow>
     distinct (map pr_id (pendingRetries s)) \<and>
     (\<forall>p \<in> set (pendingRetries s). pr_id p < next_pr_id s) \<and>
     (\<forall>c i. held_id s c = Some i \<longrightarrow> i < next_pr_id s \<and> i \<notin> pr_id ` set (pendingRetries s)) \<and>
     (\<forall>c c' i. c \<noteq> c' \<longrightarrow> held_id s c = Some i \<longrightarrow> held_id s c' \<noteq> Some i)"

definition promise_ok :: "orchestrator \<Rightarrow> bool" where
  "promise_ok s \<longleftrightarrow>
     (aborted s \<longrightarrow> resolved s) \<and>
     (resolved s \<longrightarrow> aborted s \<or> (executorDone s \<and> flows s = [] \<and> pendingRetries s = []))"

definition well_formed :: "orchestrator \<Rightarrow> bool" where
  "well_formed s \<longleftrightarrow> busy_ok s \<and> ids_ok s \<and> promise_ok s"

text \<open>
  A cycle without pagination on one context, in which the only fetch succeeds.
\<close>

definition single_page_config :: config where
  "single_page_config =
     \<lparr> paginationType = NoPagination, concurrency = 1, paginationPrefetch = False,
       paginationStart = 1, errorHandlingPolicy = DEFAULT_errorHandlingPolicy,
       isConcurrencyFixed = False \<rparr>"

definition single_page_start :: orchestrator where
  "single_page_start =
     startFlowOrchestrator single_page_config (\<lambda>c. True) (\<lambda>k. InitStopped) False [0]
       (init_driver single_page_config 0 [])"

definition single_page_succeeds :: "event list" where
  "single_page_succeeds = [Settle 0 (Resolved VUndefined) 10, Continue 0, tick]"

chapter \<open>Verified properties\<close>

section \<open>Properties of the fail counter\<close>

text \<open>
  C6: every call of the fail counter's \<^verbatim>\<open>fail(page?)\<close> increments both
  \<^verbatim>\<open>totalPageFails\<close> and \<^verbatim>\<open>consecutivePageFails\<close> by exactly 1 and returns the negation of
  (\<^verbatim>\<open>skipPageIfPossible\<close> and \<^verbatim>\<open>totalPageFails \<le> maxTotalPageFails\<close> and
  \<^verbatim>\<open>consecutivePageFails \<le> maxConsecutivePageFails\<close>), evaluated on the counters after the
  increment.
\<close>

theorem fail_increments_and_reports:
  "totalPageFails (snd (fc_fail pol page fc)) = totalPageFails fc + 1 \<and>
   consecutivePageFails (snd (fc_fail pol page fc)) = consecutivePageFails fc + 1 \<and>
   fst (fc_fail pol page fc) =
     (\<not> (skipPageIfPossible pol \<and>
         enat (totalPageFails fc + 1) \<le> maxTotalPageFails pol \<and>
         enat (consecutivePageFails fc + 1) \<le> maxConsecutivePageFails pol))"
  by (cases page) (simp_all add: fc_fail_def canSkipPage_def Let_def)

theorem fail_increments_and_reports_witness:
  "totalPageFails (snd (fc_fail (DEFAULT_errorHandlingPolicy\<lparr> skipPageIfPossible := True, maxTotalPageFails := 1 \<rparr>)
       (Some 7) (snd (fc_fail DEFAULT_errorHandlingPolicy (Some 3) initFailCounter)))) = 2 \<and>
   fst (fc_fail (DEFAULT_errorHandlingPolicy\<lparr> skipPageIfPossible := True, maxTotalPageFails := 1 \<rparr>)
       (Some 7) (snd (fc_fail DEFAULT_errorHandlingPolicy (Some 3) initFailCounter))) = True"
  using fail_increments_and_reports
    [of "DEFAULT_errorHandlingPolicy\<lparr> skipPageIfPossible := True, maxTotalPageFails := 1 \<rparr>"
        "Some 7" "snd (fc_fail DEFAULT_errorHandlingPolicy (Some 3) initFailCounter)"]
    fail_increments_and_reports [of DEFAULT_errorHandlingPolicy "Some 3" initFailCounter]
  by (simp add: DEFAULT_errorHandlingPolicy_def initFailCounter_def one_enat_def)

section \<open>Properties of the summary accumulator\<close>

lemma avg_pair_addAvgTiming:
  "avg_pair k (addAvgTiming k' t h) =
     (if k' = k then (fst (avg_pair k h) + t, snd (avg_pair k h) + 1) else avg_pair k h)"
  by (cases k; cases k') (simp_all add: avg_pair_def bump_timing_def)

lemma avg_pair_addAvgTimings:
  "avg_pair k (addAvgTimings calls h) =
     (fst (avg_pair k h) + sum_list (recorded k calls), snd (avg_pair k h) + length (recorded k calls))"
  unfolding addAvgTimings_def
proof (induction calls arbitrary: h)
  case Nil
  then show ?case by (simp add: recorded_def)
next
  case (Cons c calls)
  show ?case
    by (simp add: Cons.IH avg_pair_addAvgTiming recorded_def)
qed

lemma cs_avg_summarize:
  "cs_avg k (summarize now h) = js_or0 (js_div (fst (avg_pair k h)) (snd (avg_pair k h)))"
  by (cases k) (simp_all add: cs_avg_def summarize_def avg_pair_def Let_def setTotalTime_def)

lemma avg_pair_new: "avg_pair k (new_CycleSummaryHelper t0) = (0, 0)"
  by (cases k) (simp_all add: avg_pair_def new_CycleSummaryHelper_def)

text \<open>
  C8: in the summarized \<^verbatim>\<open>CycleSummary\<close>, each of \<^verbatim>\<open>timings.avg.all\<close>,
  \<^verbatim>\<open>timings.avg.successful\<close> and \<^verbatim>\<open>timings.avg.failed\<close> is the arithmetic mean (sum
  divided by count) of the timings recorded through \<^verbatim>\<open>addAvgTiming\<close> for that category, and
  is 0 when the category has no recorded sample. (Division is exact here; the rounding of
  the quotient to a double is not modelled.)
\<close>

theorem averages_are_means:
  "cs_avg k (summarize now (addAvgTimings calls (new_CycleSummaryHelper t0))) = mean (recorded k calls)"
  by (simp add: cs_avg_summarize avg_pair_addAvgTimings avg_pair_new mean_def js_div_def)

theorem averages_are_means_witness:
  "cs_avg AvgFailed (summarize 50 (addAvgTimings [(AvgAll, 4), (AvgSuccessful, 4), (AvgAll, 7), (AvgSuccessful, 7)]
      (new_CycleSummaryHelper 10))) = JFin 0 \<and>
   cs_avg AvgAll (summarize 50 (addAvgTimings [(AvgAll, 4), (AvgSuccessful, 4), (AvgAll, 7), (AvgSuccessful, 7)]
      (new_CycleSummaryHelper 10))) = JFin (11 / 2)"
  using averages_are_means [of AvgFailed 50 "[(AvgAll, 4), (AvgSuccessful, 4), (AvgAll, 7), (AvgSuccessful, 7)]" 10]
    averages_are_means [of AvgAll 50 "[(AvgAll, 4), (AvgSuccessful, 4), (AvgAll, 7), (AvgSuccessful, 7)]" 10]
  by (simp add: mean_def recorded_def)

section \<open>Properties of the interval computer\<close>

lemma draw_bounds:
  assumes "0 \<le> rnd" "rnd < 1" "a \<le> b"
  shows "a \<le> draw rnd a b \<and> draw rnd a b \<le> b"
proof -
  let ?n = "real_of_int (b - a + 1)"
  have n: "0 < ?n" using assms(3) by simp
  have lo: "0 \<le> rnd * ?n" using assms(1) n by simp
  have hi: "rnd * ?n < ?n" using assms(2) n by simp
  have "0 \<le> \<lfloor>rnd * ?n\<rfloor>" using lo by simp
  moreover have "\<lfloor>rnd * ?n\<rfloor> < b - a + 1"
  proof -
    have "rnd * ?n < real_of_int (b - a + 1)" using hi .
    then show ?thesis unfolding floor_less_iff .
  qed
  ultimately show ?thesis by (simp add: draw_def)
qed

lemma draw_uniform:
  assumes "a \<le> b"
  shows "draw rnd a b = k \<longleftrightarrow>
      real_of_int (k - a) / real_of_int (b - a + 1) \<le> rnd \<and>
      rnd < real_of_int (k - a + 1) / real_of_int (b - a + 1)"
proof -
  let ?n = "real_of_int (b - a + 1)"
  have n: "0 < ?n" using assms by simp
  have "draw rnd a b = k \<longleftrightarrow> \<lfloor>rnd * ?n\<rfloor> = k - a" by (auto simp: draw_def)
  also have "\<dots> \<longleftrightarrow> real_of_int (k - a) \<le> rnd * ?n \<and> rnd * ?n < real_of_int (k - a) + 1"
    by (rule floor_eq_iff)
  also have "\<dots> \<longleftrightarrow> real_of_int (k - a) / ?n \<le> rnd \<and> rnd < real_of_int (k - a + 1) / ?n"
    using n by (simp add: pos_divide_le_eq pos_less_divide_eq)
  finally show ?thesis .
qed

text \<open>
  C4, as the code has it. For a field \<open>p\<close> of \<^verbatim>\<open>interval\<close>, \<^verbatim>\<open>cycleInterval\<close>: an undefined
  \<^verbatim>\<open>cycleInterval\<close> falls back to \<^verbatim>\<open>interval\<close>; a function is called with the global
  context as receiver and a finite result \<open>x\<close> is coerced to \<open>max 0 (trunc x)\<close>; when the
  function throws or returns NaN or plus infinity the default range \<open>[1000, 2000]\<close> is drawn
  from; a range \<open>[a, b]\<close> is drawn from, and for \<open>a \<le> b\<close> and a random number in \<open>[0, 1)\<close>
  the draw is an integer of \<open>[a, b]\<close>, each integer \<open>k\<close> of it being drawn exactly on an
  interval of random numbers of length \<open>1 / (b - a + 1)\<close> (so a uniform random number gives a
  uniform draw); a scalar is returned as it is.
\<close>

theorem computeInterval_cases:
  "(opt_cycleInterval opts = None \<longrightarrow>
      computeInterval opts g rnd CycleInterval ctx = computeInterval opts g rnd Interval ctx) \<and>
   (configured_interval opts p = Fn f \<and> f g ctx = Returns (JFin x) \<longrightarrow>
      computeInterval opts g rnd p ctx = max 0 (trunc_real x)) \<and>
   (configured_interval opts p = Fn f \<and> f g ctx \<in> {Throws, Returns JNaN, Returns JPosInf} \<longrightarrow>
      computeInterval opts g rnd p ctx = draw rnd 1000 2000) \<and>
   (configured_interval opts p = Range a b \<longrightarrow> computeInterval opts g rnd p ctx = draw rnd a b) \<and>
   (0 \<le> rnd \<and> rnd < 1 \<and> a \<le> b \<longrightarrow>
      a \<le> draw rnd a b \<and> draw rnd a b \<le> b \<and>
      (\<forall>k. draw rnd a b = k \<longleftrightarrow>
         real_of_int (k - a) / real_of_int (b - a + 1) \<le> rnd \<and>
         rnd < real_of_int (k - a + 1) / real_of_int (b - a + 1))) \<and>
   (configured_interval opts p = Scalar n \<longrightarrow> computeInterval opts g rnd p ctx = n)"
proof (intro conjI impI)
  assume "opt_cycleInterval opts = None"
  then show "computeInterval opts g rnd CycleInterval ctx = computeInterval opts g rnd Interval ctx"
    by (simp add: computeInterval_def configured_interval_def)
next
  assume "configured_interval opts p = Fn f \<and> f g ctx = Returns (JFin x)"
  then show "computeInterval opts g rnd p ctx = max 0 (trunc_real x)"
    by (simp add: computeInterval_def resolve_function_def max_def)
next
  assume "configured_interval opts p = Fn f \<and> f g ctx \<in> {Throws, Returns JNaN, Returns JPosInf}"
  then show "computeInterval opts g rnd p ctx = draw rnd 1000 2000"
    by (auto simp: computeInterval_def resolve_function_def)
next
  assume "configured_interval opts p = Range a b"
  then show "computeInterval opts g rnd p ctx = draw rnd a b"
    by (simp add: computeInterval_def)
next
  assume h: "0 \<le> rnd \<and> rnd < 1 \<and> a \<le> b"
  then show "a \<le> draw rnd a b" and "draw rnd a b \<le> b" using draw_bounds by blast+
  show "\<forall>k. draw rnd a b = k \<longleftrightarrow>
         real_of_int (k - a) / real_of_int (b - a + 1) \<le> rnd \<and>
         rnd < real_of_int (k - a + 1) / real_of_int (b - a + 1)"
    using h draw_uniform by blast
next
  assume "configured_interval opts p = Scalar n"
  then show "computeInterval opts g rnd p ctx = n"
    by (simp add: computeInterval_def)
qed

theorem computeInterval_cases_witness:
  "computeInterval \<lparr> opt_interval = Range 1000 2000, opt_cycleInterval = None \<rparr> () (1/2) CycleInterval (None :: unit option)
     = computeInterval \<lparr> opt_interval = Range 1000 2000, opt_cycleInterval = None \<rparr> () (1/2) Interval (None :: unit option) \<and>
   computeInterval \<lparr> opt_interval = Scalar 0, opt_cycleInterval = Some (Fn (\<lambda>g c. Returns (JFin (7/2)))) \<rparr>
       () (1/2) CycleInterval (None :: unit option) = 3 \<and>
   computeInterval \<lparr> opt_interval = Fn (\<lambda>g c. Throws), opt_cycleInterval = None \<rparr> () (1/2) Interval (Some ())
     = draw (1/2) 1000 2000 \<and>
   computeInterval \<lparr> opt_interval = Range 10 20, opt_cycleInterval = None \<rparr> () (1/2) Interval (None :: unit option)
     = draw (1/2) 10 20 \<and>
   10 \<le> draw (1/2) 10 20 \<and> draw (1/2) 10 20 \<le> 20 \<and>
   computeInterval \<lparr> opt_interval = Scalar 250, opt_cycleInterval = None \<rparr> () (1/2) CycleInterval (None :: unit option) = 250"
proof -
  note c1 = computeInterval_cases [THEN conjunct1]
  note c2 = computeInterval_cases [THEN conjunct2, THEN conjunct1]
  note c3 = computeInterval_cases [THEN conjunct2, THEN conjunct2, THEN conjunct1]
  note c4 = computeInterval_cases [THEN conjunct2, THEN conjunct2, THEN conjunct2, THEN conjunct1]
  note c5 = computeInterval_cases [THEN conjunct2, THEN conjunct2, THEN conjunct2, THEN conjunct2, THEN conjunct1]
  note c6 = computeInterval_cases [THEN conjunct2, THEN conjunct2, THEN conjunct2, THEN conjunct2, THEN conjunct2]
  have fallback:
    "computeInterval \<lparr> opt_interval = Range 1000 2000, opt_cycleInterval = None \<rparr> () (1/2) CycleInterval (None :: unit option)
     = computeInterval \<lparr> opt_interval = Range 1000 2000, opt_cycleInterval = None \<rparr> () (1/2) Interval (None :: unit option)"
    using c1 [of "\<lparr> opt_interval = Range 1000 2000, opt_cycleInterval = None \<rparr>" "()" "1/2" "None :: unit option"]
    by simp
  have coerced:
    "computeInterval \<lparr> opt_interval = Scalar 0, opt_cycleInterval = Some (Fn (\<lambda>g c. Returns (JFin (7/2)))) \<rparr>
       () (1/2) CycleInterval (None :: unit option) = 3"
    using c2 [of "\<lparr> opt_interval = Scalar 0, opt_cycleInterval = Some (Fn (\<lambda>g c. Returns (JFin (7/2)))) \<rparr>"
          CycleInterval "\<lambda>g c. Returns (JFin (7/2))" "()" "None :: unit option" "7/2" "1/2"]
    by (simp add: configured_interval_def trunc_real_def)
  have thrown:
    "computeInterval \<lparr> opt_interval = Fn (\<lambda>g c. Throws), opt_cycleInterval = None \<rparr> () (1/2) Interval (Some ())
     = draw (1/2) 1000 2000"
    using c3 [of "\<lparr> opt_interval = Fn (\<lambda>g c. Throws), opt_cycleInterval = None \<rparr>"
          Interval "\<lambda>g c. Throws" "()" "Some ()" "1/2"]
    by (simp add: configured_interval_def)
  have ranged:
    "computeInterval \<lparr> opt_interval = Range 10 20, opt_cycleInterval = None \<rparr> () (1/2) Interval (None :: unit option)
     = draw (1/2) 10 20"
    using c4 [of "\<lparr> opt_interval = Range 10 20, opt_cycleInterval = None \<rparr>" Interval 10 20 "()" "1/2" "None :: unit option"]
    by (simp add: configured_interval_def)
  have bounds: "10 \<le> draw (1/2) 10 20 \<and> draw (1/2) 10 20 \<le> 20"
    using c5 [of "1/2" 10 20] by simp
  have scalar:
    "computeInterval \<lparr> opt_interval = Scalar 250, opt_cycleInterval = None \<rparr> () (1/2) CycleInterval (None :: unit option) = 250"
    using c6 [of "\<lparr> opt_interval = Scalar 250, opt_cycleInterval = None \<rparr>" CycleInterval 250 "()" "1/2" "None :: unit option"]
    by (simp add: configured_interval_def)
  from fallback coerced thrown ranged bounds scalar show ?thesis by blast
qed

text \<open>
  The claim as stated fails for a range whose first end is the larger one, which the
  validator accepts: from \<open>[2000, 1000]\<close> and the random number \<open>1/2\<close> the code draws 1500,
  and no integer lies in \<open>[2000, 1000]\<close>.
\<close>

theorem computeInterval_reversed_range_counterexample:
  "computeInterval \<lparr> opt_interval = Range 2000 1000, opt_cycleInterval = None \<rparr>
      () (1/2) Interval (None :: unit option) = 1500 \<and>
   \<not> (2000 \<le> (1500 :: int) \<and> (1500 :: int) \<le> 1000)"
  by (simp add: computeInterval_def configured_interval_def draw_def)

section \<open>Properties of the sleeper\<close>

lemma sleep_run_append: "sleep_run s (xs @ ys) = sleep_run (sleep_run s xs) ys"
  by (simp add: sleep_run_def)

lemma sleep_step_done:
  "settled s = Some v \<Longrightarrow> \<not> listener s \<Longrightarrow> timer s = None \<Longrightarrow> sleep_step s e = s"
  by (cases e) simp_all

lemma sleep_run_done:
  "settled s = Some v \<Longrightarrow> \<not> listener s \<Longrightarrow> timer s = None \<Longrightarrow> sleep_run s evs = s"
  by (induction evs) (simp_all add: sleep_run_def sleep_step_done)

lemma sleep_run_waiting:
  assumes "timer s = Some r" "int (elapsed evs) < r" "AbortFires \<notin> set evs"
  shows "sleep_run s evs = s\<lparr> timer := Some (r - int (elapsed evs)) \<rparr>"
  using assms
proof (induction evs arbitrary: s r)
  case Nil
  then show ?case by (simp add: sleep_run_def)
next
  case (Cons e evs)
  show ?case
  proof (cases e)
    case (Elapse d)
    with Cons.prems have d: "\<not> r \<le> int d" and rest: "int (elapsed evs) < r - int d"
      and na: "AbortFires \<notin> set evs" by auto
    have step: "sleep_step s e = s\<lparr> timer := Some (r - int d) \<rparr>"
      using Elapse Cons.prems(1) d by simp
    have "sleep_run s (e # evs) = sleep_run (s\<lparr> timer := Some (r - int d) \<rparr>) evs"
      using step by (simp add: sleep_run_def)
    also have "\<dots> = s\<lparr> timer := Some (r - int d) \<rparr>\<lparr> timer := Some (r - int d - int (elapsed evs)) \<rparr>"
      by (rule Cons.IH) (use rest na in simp_all)
    finally show ?thesis using Elapse by (simp add: algebra_simps)
  next
    case AbortFires
    with Cons.prems show ?thesis by simp
  qed
qed

lemma sleep_run_fired:
  assumes "timer s = Some r" "0 < r" "r \<le> int (elapsed evs)" "AbortFires \<notin> set evs"
    "settled s = None" "listener s \<longrightarrow> has_signal s"
  shows "settled (sleep_run s (evs @ later)) = Some False \<and>
         \<not> listener (sleep_run s (evs @ later)) \<and> timer (sleep_run s (evs @ later)) = None"
  using assms
proof (induction evs arbitrary: s r)
  case Nil
  then show ?case by simp
next
  case (Cons e evs)
  show ?case
  proof (cases e)
    case (Elapse d)
    show ?thesis
    proof (cases "r \<le> int d")
      case True
      let ?s = "sleep_step s e"
      have s: "settled ?s = Some False" "\<not> listener ?s" "timer ?s = None"
        using Elapse True Cons.prems(1,5,6) by (auto simp: ontimeout_def resolve_def Let_def)
      have "sleep_run s ((e # evs) @ later) = sleep_run ?s (evs @ later)"
        by (simp add: sleep_run_def)
      also have "\<dots> = ?s" using s by (rule sleep_run_done)
      finally show ?thesis using s by simp
    next
      case False
      let ?s = "s\<lparr> timer := Some (r - int d) \<rparr>"
      have step: "sleep_step s e = ?s" using Elapse Cons.prems(1) False by simp
      have run: "sleep_run s ((e # evs) @ later) = sleep_run ?s (evs @ later)"
        using step by (simp add: sleep_run_def)
      have "settled (sleep_run ?s (evs @ later)) = Some False \<and>
         \<not> listener (sleep_run ?s (evs @ later)) \<and> timer (sleep_run ?s (evs @ later)) = None"
      proof (rule Cons.IH)
        show "timer ?s = Some (r - int d)" by simp
        show "0 < r - int d" using False by simp
        show "r - int d \<le> int (elapsed evs)" using Cons.prems(3) Elapse by simp
        show "AbortFires \<notin> set evs" using Cons.prems(4) by simp
        show "settled ?s = None" using Cons.prems(5) by simp
        show "listener ?s \<longrightarrow> has_signal ?s" using Cons.prems(6) by simp
      qed
      then show ?thesis unfolding run .
    qed
  next
    case AbortFires
    with Cons.prems show ?thesis by simp
  qed
qed

lemma setTimeout_delay_positive: "0 < setTimeout_delay ms"
  by (cases ms) (auto simp: setTimeout_delay_def)

text \<open>
  Claim C9, on the code. \<^verbatim>\<open>sleep(ms, signal?)\<close> resolves at once with \<open>true\<close> when the signal is
  already aborted, and arms no timer and no listener. Otherwise, as long as the signal has
  not fired: the promise is pending while less than the delay of the timer has passed, and
  it is resolved with \<open>false\<close>, with the listener off the signal, once that delay has passed,
  whatever happens later; and when the signal fires during the wait the promise resolves
  with \<open>true\<close>, the listener is off the signal, and it stays so. The delay of the timer is
  \<^verbatim>\<open>ms\<close> truncated for \<^verbatim>\<open>ms\<close> from 1 to \<open>2^31 - 1\<close>, but 1 millisecond for every other \<^verbatim>\<open>ms\<close>:
  \<^verbatim>\<open>sleep(2147483648, signal)\<close> has resolved with \<open>false\<close> after one millisecond, not after
  \<^verbatim>\<open>ms\<close> have passed.
\<close>

theorem sleep_resolution:
  "(settled (sleep_run (sleep ms (Some True)) evs) = Some True \<and>
    \<not> listener (sleep_run (sleep ms (Some True)) evs) \<and>
    timer (sleep_run (sleep ms (Some True)) evs) = None) \<and>
   (signal \<noteq> Some True \<and> AbortFires \<notin> set evs \<longrightarrow>
      (int (elapsed evs) < setTimeout_delay ms \<longrightarrow>
         settled (sleep_run (sleep ms signal) evs) = None) \<and>
      (setTimeout_delay ms \<le> int (elapsed evs) \<longrightarrow>
         settled (sleep_run (sleep ms signal) (evs @ later)) = Some False \<and>
         \<not> listener (sleep_run (sleep ms signal) (evs @ later))) \<and>
      (signal = Some False \<and> int (elapsed evs) < setTimeout_delay ms \<longrightarrow>
         settled (sleep_run (sleep ms signal) (evs @ AbortFires # later)) = Some True \<and>
         \<not> listener (sleep_run (sleep ms signal) (evs @ AbortFires # later)))) \<and>
   (1 \<le> x \<and> x \<le> 2147483647 \<longrightarrow> setTimeout_delay (JFin x) = \<lfloor>x\<rfloor>) \<and>
   (x < 1 \<or> 2147483647 < x \<longrightarrow> setTimeout_delay (JFin x) = 1) \<and>
   settled (sleep_run (sleep (JFin 2147483648) (Some False)) [Elapse 1]) = Some False"
proof (intro conjI impI)
  have "sleep_run (sleep ms (Some True)) evs = sleep ms (Some True)"
    by (rule sleep_run_done [where v = True]) (simp_all add: sleep_def resolve_def)
  then show "settled (sleep_run (sleep ms (Some True)) evs) = Some True"
    and "\<not> listener (sleep_run (sleep ms (Some True)) evs)"
    and "timer (sleep_run (sleep ms (Some True)) evs) = None"
    by (simp_all add: sleep_def resolve_def)
next
  assume h: "signal \<noteq> Some True \<and> AbortFires \<notin> set evs"
    and e: "int (elapsed evs) < setTimeout_delay ms"
  from h have t: "timer (sleep ms signal) = Some (setTimeout_delay ms)"
    by (cases signal) (auto simp: sleep_def)
  have pending: "settled (sleep ms signal) = None"
    using h by (cases signal) (auto simp: sleep_def)
  show "settled (sleep_run (sleep ms signal) evs) = None"
    using sleep_run_waiting [OF t e] h pending by simp
next
  assume h: "signal \<noteq> Some True \<and> AbortFires \<notin> set evs"
    and e: "setTimeout_delay ms \<le> int (elapsed evs)"
  from h have t: "timer (sleep ms signal) = Some (setTimeout_delay ms)"
    by (cases signal) (auto simp: sleep_def)
  have s: "settled (sleep ms signal) = None" "listener (sleep ms signal) \<longrightarrow> has_signal (sleep ms signal)"
    using h by (cases signal; auto simp: sleep_def)+
  from h have na: "AbortFires \<notin> set evs" by simp
  note f = sleep_run_fired [OF t setTimeout_delay_positive e na s, of later]
  from f show "settled (sleep_run (sleep ms signal) (evs @ later)) = Some False" by simp
  from f show "\<not> listener (sleep_run (sleep ms signal) (evs @ later))" by simp
next
  assume h: "signal \<noteq> Some True \<and> AbortFires \<notin> set evs"
    and a: "signal = Some False \<and> int (elapsed evs) < setTimeout_delay ms"
  have t: "timer (sleep ms signal) = Some (setTimeout_delay ms)"
    using a by (simp add: sleep_def)
  have w: "sleep_run (sleep ms signal) evs =
      (sleep ms signal)\<lparr> timer := Some (setTimeout_delay ms - int (elapsed evs)) \<rparr>"
    using sleep_run_waiting [OF t] a h by simp
  let ?s = "sleep_step (sleep_run (sleep ms signal) evs) AbortFires"
  have s: "settled ?s = Some True \<and> \<not> listener ?s \<and> timer ?s = None"
    using w a by (simp add: onabort_def resolve_def sleep_def)
  have "sleep_run (sleep ms signal) (evs @ AbortFires # later) = sleep_run ?s later"
    by (simp add: sleep_run_def)
  also have "\<dots> = ?s"
    using s by (intro sleep_run_done [where v = True]) simp_all
  finally show "settled (sleep_run (sleep ms signal) (evs @ AbortFires # later)) = Some True"
    and "\<not> listener (sleep_run (sleep ms signal) (evs @ AbortFires # later))"
    using s by simp_all
next
  assume "1 \<le> x \<and> x \<le> 2147483647"
  then show "setTimeout_delay (JFin x) = \<lfloor>x\<rfloor>"
    by (simp add: setTimeout_delay_def TIMEOUT_MAX_def)
next
  assume "x < 1 \<or> 2147483647 < x"
  then show "setTimeout_delay (JFin x) = 1"
    by (auto simp: setTimeout_delay_def TIMEOUT_MAX_def)
next
  show "settled (sleep_run (sleep (JFin 2147483648) (Some False)) [Elapse 1]) = Some False"
    by (simp add: sleep_run_def sleep_def setTimeout_delay_def TIMEOUT_MAX_def ontimeout_def
        resolve_def)
qed

theorem sleep_resolution_witness:
  "settled (sleep_run (sleep (JFin 100) (Some True)) [Elapse 500, AbortFires]) = Some True \<and>
   settled (sleep_run (sleep (JFin 100) (Some False)) [Elapse 30, Elapse 40]) = None \<and>
   settled (sleep_run (sleep (JFin 100) (Some False)) ([Elapse 30, Elapse 70] @ [AbortFires])) = Some False \<and>
   \<not> listener (sleep_run (sleep (JFin 100) (Some False)) ([Elapse 30, Elapse 70] @ [AbortFires])) \<and>
   settled (sleep_run (sleep (JFin 100) (Some False)) ([Elapse 30, Elapse 40] @ AbortFires # [Elapse 500])) = Some True \<and>
   \<not> listener (sleep_run (sleep (JFin 100) (Some False)) ([Elapse 30, Elapse 40] @ AbortFires # [Elapse 500])) \<and>
   settled (sleep_run (sleep (JFin 0) None) ([Elapse 1] @ [])) = Some False \<and>
   setTimeout_delay (JFin 100) = 100 \<and> setTimeout_delay (JFin 2147483648) = 1"
proof -
  have d: "setTimeout_delay (JFin 100) = 100" "setTimeout_delay (JFin 0) = 1"
    by (simp_all add: setTimeout_delay_def TIMEOUT_MAX_def)
  show ?thesis
    using sleep_resolution [of "JFin 100" "[Elapse 500, AbortFires]" "Some False" "[AbortFires]" 100]
      sleep_resolution [of "JFin 100" "[Elapse 30, Elapse 40]" "Some False" "[Elapse 500]" 2147483648]
      sleep_resolution [of "JFin 100" "[Elapse 30, Elapse 70]" "Some False" "[AbortFires]" 100]
      sleep_resolution [of "JFin 0" "[Elapse 1]" None "[]" 0]
    by (simp add: d)
qed

section \<open>Properties of option validation\<close>

lemmas create_unfolds =
  create_def validateOptions_def OPTION_KEYS_def POLICY_KEYS_def
  set_paginationType_def set_interval_def set_strategy_def set_number_def set_boolean_def
  set_context_init_def set_required_function_def set_optional_function_def
  set_errorHandlingPolicy_def set_logger_def set_policy_number_def set_policy_boolean_def
  with_default_def with_policy_default_def policy_value_def in_PaginationType_def
  call_function_def warn_value_def warn_range_def

text \<open>
  Claim C3, on the code. For \<^verbatim>\<open>create({ fetchHandler, paginationType: 7 })\<close>, where 7 is not
  a member of the enum, the constructor returns, the validated \<^verbatim>\<open>paginationType\<close> is the
  default \<^verbatim>\<open>PaginationType.None\<close>, and no warning at all has been given to the logger:
  the \<^verbatim>\<open>paginationType\<close> branch of the trap substitutes the default without a call of the
  logger. Every other branch warns for an invalid value: with \<^verbatim>\<open>paginationPrefetch: 7\<close>
  instead, the logger gets the warning for \<^verbatim>\<open>options.paginationPrefetch\<close>.
\<close>

theorem create_invalid_paginationType_no_warning:
  "\<not> in_PaginationType (VNumber (JFin 7)) \<and>
   snd (create user options_paginationType_7) = [] \<and>
   (case fst (create user options_paginationType_7) of
      Inl e \<Rightarrow> None
    | Inr (vo, globalContext) \<Rightarrow> Some (target vo Key_paginationType)) =
     Some (PaginationType_value NoPagination) \<and>
   snd (create user options_paginationPrefetch_7) = [(OptionPath Key_paginationPrefetch, InvalidValue)] \<and>
   (case fst (create user options_paginationPrefetch_7) of
      Inl e \<Rightarrow> None
    | Inr (vo, globalContext) \<Rightarrow> Some (target vo Key_paginationPrefetch)) =
     Some (DEFAULT_OPTIONS Key_paginationPrefetch)"
  by (simp add: create_unfolds options_paginationType_7_def options_paginationPrefetch_7_def)

section \<open>Properties of the pagination drivers\<close>

text \<open>
  C7: in the HasMore driver, an executor called for a retry whose page is greater than the
  discovered \<^verbatim>\<open>lastPage\<close> returns \<^verbatim>\<open>false\<close> at once: \<^verbatim>\<open>fetchHandler\<close> is not called and the
  driver is left as it was (the fetch log, the error count and \<^verbatim>\<open>failedPageList\<close> are
  unchanged). In the scheduler the worker goes straight to its continuation, which takes
  the \<^verbatim>\<open>false\<close> for a success and drops the retry: the queue of pending retries is left as
  it was, so the page is not attempted again.
\<close>

theorem hasMore_retry_beyond_lastPage:
  assumes "paginationType cfg = HasMore"
    and "lastPage (drv s) = Some lp" and "lp < real_of_int (page_id (pr_retry p))"
  shows "exec_begin cfg c (attemptsLeft p) (Some (pr_retry p)) (drv s) = (drv s, False, Finished None) \<and>
         hfe_exec cfg c (Some p) s =
           s\<lparr> workers := (workers s)(c \<mapsto> Returning (attemptsLeft p) None (Some p)) \<rparr> \<and>
         step cfg (hfe_exec cfg c (Some p) s) (Continue c) =
           Some (release c (s\<lparr> firstPageReady := True \<rparr>)) \<and>
         drv (release c (s\<lparr> firstPageReady := True \<rparr>)) = drv s \<and>
         pendingRetries (release c (s\<lparr> firstPageReady := True \<rparr>)) = pendingRetries s"
proof -
  have b: "exec_begin cfg c (attemptsLeft p) (Some (pr_retry p)) (drv s) = (drv s, False, Finished None)"
    using assms by (simp add: exec_begin_def)
  have e: "hfe_exec cfg c (Some p) s =
           s\<lparr> workers := (workers s)(c \<mapsto> Returning (attemptsLeft p) None (Some p)) \<rparr>"
    by (simp add: hfe_exec_def b Let_def)
  have f: "step cfg (hfe_exec cfg c (Some p) s) (Continue c) =
           Some (release c (s\<lparr> firstPageReady := True \<rparr>))"
    by (simp add: e hfe_finish_def release_def)
  show ?thesis using b e f by (simp add: release_def)
qed

theorem hasMore_retry_beyond_lastPage_witness:
  "exec_begin
     \<lparr> paginationType = HasMore, concurrency = 2, paginationPrefetch = False, paginationStart = 1,
       errorHandlingPolicy = DEFAULT_errorHandlingPolicy, isConcurrencyFixed = False \<rparr>
     1 1 (Some (RetryPage 5))
     ((init_driver
        \<lparr> paginationType = HasMore, concurrency = 2, paginationPrefetch = False, paginationStart = 1,
          errorHandlingPolicy = DEFAULT_errorHandlingPolicy, isConcurrencyFixed = False \<rparr> 0 [])
        \<lparr> nextPage := 6, lastPage := Some 4 \<rparr>)
   = ((init_driver
        \<lparr> paginationType = HasMore, concurrency = 2, paginationPrefetch = False, paginationStart = 1,
          errorHandlingPolicy = DEFAULT_errorHandlingPolicy, isConcurrencyFixed = False \<rparr> 0 [])
        \<lparr> nextPage := 6, lastPage := Some 4 \<rparr>, False, Finished None)"
proof -
  let ?cfg = "\<lparr> paginationType = HasMore, concurrency = 2, paginationPrefetch = False, paginationStart = 1,
       errorHandlingPolicy = DEFAULT_errorHandlingPolicy, isConcurrencyFixed = False \<rparr>"
  let ?d = "(init_driver ?cfg 0 [])\<lparr> nextPage := 6, lastPage := Some 4 \<rparr>"
  let ?p = "\<lparr> pr_id = 0, pr_retry = RetryPage 5, pr_flows = [0], attemptsLeft = 1 \<rparr>"
  have "paginationType ?cfg = HasMore" by simp
  moreover have "lastPage (drv (init_orchestrator [0, 1] ?d)) = Some 4"
    by (simp add: init_orchestrator_def)
  moreover have "(4::real) < real_of_int (page_id (pr_retry ?p))" by simp
  ultimately show ?thesis
    using hasMore_retry_beyond_lastPage [of ?cfg "init_orchestrator [0, 1] ?d" 4 ?p 1]
    by (simp add: init_orchestrator_def)
qed



text \<open>
  A whole List cycle over two items with \<^verbatim>\<open>retryLimit = 0\<close> and one context, in which the
  fetch of the first item throws and the fetch of the second succeeds: the summary lists
  the failed identifier 0.
\<close>

lemma list_cycle_first_item_fails:
  "map_option (\<lambda>s. (resolved s, cs_failedPageList
       (cycle_summary
          \<lparr> paginationType = ListOfPages, concurrency = 1, paginationPrefetch = False, paginationStart = 1,
            errorHandlingPolicy = DEFAULT_errorHandlingPolicy\<lparr> retryLimit := 0, skipPageIfPossible := True \<rparr>,
            isConcurrencyFixed = False \<rparr> 100 (drv s))))
     (run
        \<lparr> paginationType = ListOfPages, concurrency = 1, paginationPrefetch = False, paginationStart = 1,
          errorHandlingPolicy = DEFAULT_errorHandlingPolicy\<lparr> retryLimit := 0, skipPageIfPossible := True \<rparr>,
          isConcurrencyFixed = False \<rparr>
        (startFlowOrchestrator
           \<lparr> paginationType = ListOfPages, concurrency = 1, paginationPrefetch = False, paginationStart = 1,
             errorHandlingPolicy = DEFAULT_errorHandlingPolicy\<lparr> retryLimit := 0, skipPageIfPossible := True \<rparr>,
             isConcurrencyFixed = False \<rparr>
           (\<lambda>c. False) (\<lambda>k. InitStopped) False [0]
           (init_driver
              \<lparr> paginationType = ListOfPages, concurrency = 1, paginationPrefetch = False, paginationStart = 1,
                errorHandlingPolicy = DEFAULT_errorHandlingPolicy\<lparr> retryLimit := 0, skipPageIfPossible := True \<rparr>,
                isConcurrencyFixed = False \<rparr>
              0 [VString ''u'', VString ''v'']))
        [Settle 0 FetchThrew 7, Continue 0, Tick (\<lambda>c. False) (\<lambda>k. InitStopped),
         Settle 0 (Resolved VUndefined) 7, Continue 0, Tick (\<lambda>c. False) (\<lambda>k. InitStopped)])
   = Some (True, [0])"
  by code_simp

text \<open>
  A List cycle reaches the orchestrator only on a non-empty list: when \<^verbatim>\<open>resolveList\<close> throws
  or gives an empty list, the handler returns the summary of the new helper, with no page
  handled and none failed.
\<close>

lemma list_cycle_needs_items:
  assumes "paginationType cfg = ListOfPages"
  shows "start_cycle cfg sleeps inits signal_aborted ctxs now later (Returned (VArray [])) =
           Skipped (summarize later (new_CycleSummaryHelper now))"
    and "start_cycle cfg sleeps inits signal_aborted ctxs now later Threw =
           Skipped (summarize later (new_CycleSummaryHelper now))"
    and "cs_failedPageList (summarize later (new_CycleSummaryHelper now)) = []"
    and "items \<noteq> [] \<Longrightarrow>
         start_cycle cfg sleeps inits signal_aborted ctxs now later (Returned (VArray items)) =
           Started (startFlowOrchestrator cfg sleeps inits signal_aborted ctxs (init_driver cfg now items))"
  using assms
  by (simp_all add: start_cycle_def summarize_def new_CycleSummaryHelper_def setTotalTime_def Let_def)

section \<open>Properties of the flow orchestrator\<close>

lemma set_set_add [simp]: "set (set_add x xs) = insert x (set xs)"
  by (auto simp: set_add_def)

lemma set_set_delete [simp]: "set (set_delete x xs) = set xs - {x}"
  by (auto simp: set_delete_def)

lemma distinct_set_add [simp]: "distinct (set_add x xs) = distinct xs"
  by (auto simp: set_add_def)

lemma distinct_set_delete [simp]: "distinct xs \<Longrightarrow> distinct (set_delete x xs)"
  by (simp add: set_delete_def distinct_removeAll)

lemma length_set_add: "length (set_add x xs) = (if x \<in> set xs then length xs else Suc (length xs))"
  by (simp add: set_add_def)

lemma length_set_delete: "length (set_delete x xs) \<le> length xs"
  by (simp add: set_delete_def)

lemma hfe_exec_frame [simp]:
  "flows (hfe_exec cfg c pr s) = flows s"
  "pendingRetries (hfe_exec cfg c pr s) = pendingRetries s"
  "flowsContexts (hfe_exec cfg c pr s) = flowsContexts s"
  "flowsLastExecution (hfe_exec cfg c pr s) = flowsLastExecution s"
  "firstPageReady (hfe_exec cfg c pr s) = firstPageReady s"
  "resolved (hfe_exec cfg c pr s) = resolved s"
  "aborted (hfe_exec cfg c pr s) = aborted s"
  "ticks (hfe_exec cfg c pr s) = ticks s"
  "next_pr_id (hfe_exec cfg c pr s) = next_pr_id s"
  by (simp_all add: hfe_exec_def Let_def split: exec_status.splits)

lemma release_frame [simp]:
  "flows (release c s) = set_delete c (flows s)"
  "pendingRetries (release c s) = pendingRetries s"
  "flowsContexts (release c s) = flowsContexts s"
  "flowsLastExecution (release c s) = flowsLastExecution s"
  "firstPageReady (release c s) = firstPageReady s"
  "executorDone (release c s) = executorDone s"
  "resolved (release c s) = resolved s"
  "aborted (release c s) = aborted s"
  "ticks (release c s) = ticks s + 1"
  "next_pr_id (release c s) = next_pr_id s"
  "drv (release c s) = drv s"
  "workers (release c s) = (workers s)(c := None)"
  by (simp_all add: release_def)

lemma hfe_after_sleep_frame [simp]:
  "pendingRetries (hfe_after_sleep cfg canceled c pr s) = pendingRetries s"
  "flowsContexts (hfe_after_sleep cfg canceled c pr s) = flowsContexts s"
  "flowsLastExecution (hfe_after_sleep cfg canceled c pr s) = flowsLastExecution s"
  "firstPageReady (hfe_after_sleep cfg canceled c pr s) = firstPageReady s"
  "resolved (hfe_after_sleep cfg canceled c pr s) = resolved s"
  "aborted (hfe_after_sleep cfg canceled c pr s) = aborted s"
  "next_pr_id (hfe_after_sleep cfg canceled c pr s) = next_pr_id s"
  by (simp_all add: hfe_after_sleep_def)

lemma hfe_start_frame [simp]:
  "pendingRetries (hfe_start cfg sleeps c pr s) = pendingRetries s"
  "flowsContexts (hfe_start cfg sleeps c pr s) = flowsContexts s"
  "firstPageReady (hfe_start cfg sleeps c pr s) = firstPageReady s"
  "resolved (hfe_start cfg sleeps c pr s) = resolved s"
  "aborted (hfe_start cfg sleeps c pr s) = aborted s"
  "next_pr_id (hfe_start cfg sleeps c pr s) = next_pr_id s"
  by (simp_all add: hfe_start_def)

lemma flows_hfe_after_sleep:
  "flows (hfe_after_sleep cfg canceled c pr s) =
     (if canceled \<or> (executorDone s \<and> pr = None) then set_delete c (flows s) else flows s)"
  by (simp add: hfe_after_sleep_def)

lemma flows_hfe_start:
  "flows (hfe_start cfg sleeps c pr s) = flows s \<or>
   flows (hfe_start cfg sleeps c pr s) = set_delete c (flows s)"
  by (simp add: hfe_start_def flows_hfe_after_sleep)

lemma flows_hfe_start_retry [simp]:
  "flows (hfe_start cfg sleeps c (Some p) s) = flows s"
  by (simp add: hfe_start_def flows_hfe_after_sleep)

lemma current_concurrency_cong:
  "flowsContexts s' = flowsContexts s \<Longrightarrow> firstPageReady s' = firstPageReady s \<Longrightarrow>
   current_concurrency cfg s' = current_concurrency cfg s"
  by (simp add: current_concurrency_def)

lemma top_up_prims:
  "\<not> isConcurrencyFixed cfg \<Longrightarrow> n \<le> getConcurrency cfg - length (flowsContexts s) \<Longrightarrow>
   (prim cfg)\<^sup>*\<^sup>* s (snd (top_up inits k n s))"
proof (induction n arbitrary: s k)
  case 0
  then show ?case by simp
next
  case (Suc n)
  show ?case
  proof (cases "inits k")
    case (InitContext c)
    let ?s = "s\<lparr> flowsContexts := flowsContexts s @ [c] \<rparr>"
    have "prim cfg s ?s" using Suc.prems by (intro p_context) simp_all
    moreover have "(prim cfg)\<^sup>*\<^sup>* ?s (snd (top_up inits (k + 1) n ?s))"
      using Suc.prems by (intro Suc.IH) simp_all
    ultimately show ?thesis using InitContext by (simp add: converse_rtranclp_into_rtranclp)
  next
    case InitStopped
    then show ?thesis by (simp add: p_abort r_into_rtranclp)
  qed
qed

lemma top_up_shape:
  "fst (top_up inits k n s) \<Longrightarrow> \<exists>cs. snd (top_up inits k n s) = s\<lparr> flowsContexts := flowsContexts s @ cs \<rparr>"
proof (induction n arbitrary: s k)
  case 0
  have "s = s\<lparr> flowsContexts := flowsContexts s @ [] \<rparr>" by simp
  then show ?case by (metis top_up.simps(1) snd_conv)
next
  case (Suc n)
  show ?case
  proof (cases "inits k")
    case (InitContext c)
    let ?s = "s\<lparr> flowsContexts := flowsContexts s @ [c] \<rparr>"
    from Suc.prems InitContext have "fst (top_up inits (k + 1) n ?s)" by simp
    from Suc.IH [OF this] obtain cs where
      "snd (top_up inits (k + 1) n ?s) = ?s\<lparr> flowsContexts := flowsContexts ?s @ cs \<rparr>" by blast
    then have "snd (top_up inits k (Suc n) s) = s\<lparr> flowsContexts := flowsContexts s @ (c # cs) \<rparr>"
      using InitContext by simp
    then show ?thesis by blast
  next
    case InitStopped
    with Suc.prems show ?thesis by simp
  qed
qed

lemma updateFlowsContexts_prims:
  "(prim cfg)\<^sup>*\<^sup>* s (snd (updateFlowsContexts cfg inits s))"
  by (simp add: updateFlowsContexts_def top_up_prims)

lemma updateFlowsContexts_shape:
  "fst (updateFlowsContexts cfg inits s) \<Longrightarrow>
   \<exists>cs. snd (updateFlowsContexts cfg inits s) = s\<lparr> flowsContexts := flowsContexts s @ cs \<rparr>"
proof (cases "isConcurrencyFixed cfg")
  case True
  assume "fst (updateFlowsContexts cfg inits s)"
  have "s = s\<lparr> flowsContexts := flowsContexts s @ [] \<rparr>" by simp
  with True show ?thesis unfolding updateFlowsContexts_def by (metis snd_conv)
next
  case False
  assume "fst (updateFlowsContexts cfg inits s)"
  with False show ?thesis by (simp add: updateFlowsContexts_def top_up_shape)
qed

lemma length_flows_hfe_start:
  "length (flows (hfe_start cfg sleeps c pr s)) \<le> length (flows s)"
  using flows_hfe_start [of cfg sleeps c pr s] length_set_delete [of c "flows s"] by auto

lemma set_flows_hfe_start:
  "set (flows (hfe_start cfg sleeps c pr s)) \<subseteq> set (flows s)"
  using flows_hfe_start [of cfg sleeps c pr s] by auto

lemma current_concurrency_hfe_start [simp]:
  "current_concurrency cfg (hfe_start cfg' sleeps c pr s) = current_concurrency cfg s"
  by (simp add: current_concurrency_def)

lemma current_concurrency_update [simp]:
  "current_concurrency cfg (s\<lparr> flows := f \<rparr>) = current_concurrency cfg s"
  "current_concurrency cfg (s\<lparr> pendingRetries := ps \<rparr>) = current_concurrency cfg s"
  by (simp_all add: current_concurrency_def)

lemma dispatch_free_prims:
  assumes "\<not> resolved s" "distinct cs" "set cs \<inter> set (flows s) = {}"
    "set cs \<subseteq> set (flowsContexts s)"
    "int (length (flows s)) + left \<le> int (current_concurrency cfg s)" "0 < left"
  shows "(prim cfg)\<^sup>*\<^sup>* s (dispatch_free cfg sleeps cs left s)"
  using assms
proof (induction cs arbitrary: s left)
  case Nil
  then show ?case by simp
next
  case (Cons c cs)
  define shifted where "shifted =
     (if retryDistinctFlows (errorHandlingPolicy cfg) then (None, s)
      else (case pendingRetries s of [] \<Rightarrow> (None, s) | p # ps \<Rightarrow> (Some p, s\<lparr> pendingRetries := ps \<rparr>)))"
  define pr where "pr = fst shifted"
  define s1 where "s1 = snd shifted"
  define s2 where "s2 = hfe_start cfg sleeps c pr (s1\<lparr> flows := set_add c (flows s1) \<rparr>)"
  have unfold: "dispatch_free cfg sleeps (c # cs) left s =
      (if executorDone s1 \<and> pr = None then s1
       else if left - 1 \<le> 0 then s2 else dispatch_free cfg sleeps cs (left - 1) s2)"
    by (simp add: shifted_def pr_def s1_def s2_def Let_def)
  have c: "c \<notin> set (flows s)" "c \<in> set (flowsContexts s)" "c \<notin> set cs"
    using Cons.prems by auto
  have room: "length (flows s) < current_concurrency cfg s"
    using Cons.prems by linarith
  consider (none) "pr = None" "s1 = s"
    | (some) p ps where "pr = Some p" "pendingRetries s = p # ps" "s1 = s\<lparr> pendingRetries := ps \<rparr>"
      "\<not> retryDistinctFlows (errorHandlingPolicy cfg)"
    by (cases "retryDistinctFlows (errorHandlingPolicy cfg)"; cases "pendingRetries s")
      (auto simp: pr_def s1_def shifted_def)
  then have first: "(executorDone s1 \<and> pr = None) \<or> prim cfg s s2"
  proof cases
    case none
    show ?thesis
    proof (cases "executorDone s")
      case True
      with none show ?thesis by simp
    next
      case False
      have "prim cfg s (hfe_start cfg sleeps c None (s\<lparr> flows := set_add c (flows s) \<rparr>))"
        using Cons.prems(1) False c room by (intro p_fresh)
      with none show ?thesis by (simp add: s2_def)
    qed
  next
    case some
    have "prim cfg s (hfe_start cfg sleeps c (Some p)
        (s\<lparr> pendingRetries := remove1 p (pendingRetries s), flows := set_add c (flows s) \<rparr>))"
      using Cons.prems(1) some c room by (intro p_retry) simp_all
    with some show ?thesis by (simp add: s2_def)
  qed
  have s1: "flows s1 = flows s" "resolved s1 = resolved s" "flowsContexts s1 = flowsContexts s"
    "firstPageReady s1 = firstPageReady s"
    by (auto simp: s1_def shifted_def split: list.splits)
  have cc: "current_concurrency cfg s2 = current_concurrency cfg s"
    by (simp add: s2_def current_concurrency_def s1)
  have fl: "set (flows s2) \<subseteq> insert c (set (flows s))"
    using set_flows_hfe_start [of cfg sleeps c pr "s1\<lparr> flows := set_add c (flows s1) \<rparr>"]
    by (auto simp: s2_def s1)
  have len: "length (flows s2) \<le> Suc (length (flows s))"
    using length_flows_hfe_start [of cfg sleeps c pr "s1\<lparr> flows := set_add c (flows s1) \<rparr>"] c
    by (simp add: s2_def s1 length_set_add)
  show ?case
  proof (cases "executorDone s1 \<and> pr = None")
    case True
    then have "pr = None" by simp
    then have "s1 = s" by (auto simp: pr_def s1_def shifted_def split: if_splits list.splits)
    with True show ?thesis unfolding unfold by simp
  next
    case False
    with first have step1: "prim cfg s s2" by blast
    show ?thesis
    proof (cases "left - 1 \<le> 0")
      case True
      with False step1 show ?thesis unfolding unfold by auto
    next
      case more: False
      have "(prim cfg)\<^sup>*\<^sup>* s2 (dispatch_free cfg sleeps cs (left - 1) s2)"
      proof (rule Cons.IH)
        show "\<not> resolved s2" using Cons.prems(1) by (simp add: s2_def s1)
        show "distinct cs" using Cons.prems by simp
        show "set cs \<inter> set (flows s2) = {}" using fl c Cons.prems(3) by auto
        show "set cs \<subseteq> set (flowsContexts s2)" using Cons.prems(4) by (simp add: s2_def s1)
        show "int (length (flows s2)) + (left - 1) \<le> int (current_concurrency cfg s2)"
          using len Cons.prems(5) cc by linarith
        show "0 < left - 1" using more by simp
      qed
      with step1 False more show ?thesis
        unfolding unfold by (auto intro: converse_rtranclp_into_rtranclp)
    qed
  qed
qed

lemma distinct_map_remove1_key:
  "distinct (map f xs) \<Longrightarrow> distinct (map f (remove1 x xs))"
proof (induction xs)
  case Nil
  then show ?case by simp
next
  case (Cons y ys)
  have "set (remove1 x ys) \<subseteq> set ys" by (rule set_remove1_subset)
  with Cons show ?case by auto
qed

lemma remove_pending_remove1:
  "distinct (map pr_id ps) \<Longrightarrow> p \<in> set ps \<Longrightarrow> remove_pending (pr_id p) ps = remove1 p ps"
  by (induction ps) (auto simp: image_iff)

lemma dispatch_retries_prims:
  assumes "dispatchable cfg s queue"
  shows "(prim cfg)\<^sup>*\<^sup>* s (fst (dispatch_retries cfg sleeps queue free s)) \<and>
    (snd (snd (dispatch_retries cfg sleeps queue free s)) \<longrightarrow>
       \<not> resolved (fst (dispatch_retries cfg sleeps queue free s))
     \<and> flowsContexts (fst (dispatch_retries cfg sleeps queue free s)) = flowsContexts s
     \<and> firstPageReady (fst (dispatch_retries cfg sleeps queue free s)) = firstPageReady s
     \<and> length (flows (fst (dispatch_retries cfg sleeps queue free s))) \<le> length (flows s) + length queue
     \<and> set (flows (fst (dispatch_retries cfg sleeps queue free s))) \<subseteq> set (flows s) \<union> (hd \<circ> snd) ` set queue
     \<and> set (fst (snd (dispatch_retries cfg sleeps queue free s))) = set free - (hd \<circ> snd) ` set queue
     \<and> (distinct free \<longrightarrow> distinct (fst (snd (dispatch_retries cfg sleeps queue free s)))))"
  using assms
proof (induction queue arbitrary: s free)
  case Nil
  then show ?case by (simp add: dispatchable_def)
next
  case (Cons e rest)
  obtain p available where e: "e = (p, available)" by (cases e)
  from Cons.prems have av: "available \<noteq> []" by (simp add: dispatchable_def e)
  then obtain c others where available: "available = c # others" by (cases available) auto
  show ?case
  proof (cases "c = null_context")
    case True
    then have "dispatch_retries cfg sleeps (e # rest) free s = (abort s, free, False)"
      by (simp add: e available)
    then show ?thesis by (simp add: p_abort r_into_rtranclp)
  next
    case False
    define s1 where "s1 = hfe_start cfg sleeps c (Some p)
       (s\<lparr> pendingRetries := remove_pending (pr_id p) (pendingRetries s), flows := set_add c (flows s) \<rparr>)"
    have unfold: "dispatch_retries cfg sleeps (e # rest) free s =
        dispatch_retries cfg sleeps rest (set_delete c free) s1"
      using False by (simp add: e available s1_def)
    from Cons.prems have p: "p \<in> set (pendingRetries s)" "c \<notin> set (flows s)"
      "c \<in> set (flowsContexts s)" "c \<notin> set (pr_flows p)" "\<not> resolved s"
      "distinct (map pr_id (pendingRetries s))" "length (flows s) < current_concurrency cfg s"
      by (auto simp: dispatchable_def e available)
    have rm: "remove_pending (pr_id p) (pendingRetries s) = remove1 p (pendingRetries s)"
      using p by (simp add: remove_pending_remove1)
    have step1: "prim cfg s s1"
      unfolding s1_def rm using p by (intro p_retry) simp_all
    have s1: "flows s1 = set_add c (flows s)" "pendingRetries s1 = remove1 p (pendingRetries s)"
      "flowsContexts s1 = flowsContexts s" "firstPageReady s1 = firstPageReady s"
      "resolved s1 = resolved s" "current_concurrency cfg s1 = current_concurrency cfg s"
      by (simp_all add: s1_def rm)
    have rest: "dispatchable cfg s1 rest"
      unfolding dispatchable_def
    proof (intro conjI ballI)
      fix e' assume e': "e' \<in> set rest"
      with Cons.prems have old: "snd e' \<noteq> []" "fst e' \<in> set (pendingRetries s)"
        "hd (snd e') \<notin> set (flows s)" "hd (snd e') \<in> set (flowsContexts s)"
        "hd (snd e') \<notin> set (pr_flows (fst e'))"
        by (auto simp: dispatchable_def)
      from Cons.prems e' have "pr_id (fst e') \<noteq> pr_id p" "hd (snd e') \<noteq> c"
        by (auto simp: dispatchable_def e available image_iff)
      then have "fst e' \<noteq> p" by auto
      show "snd e' \<noteq> []" by (rule old)
      show "fst e' \<in> set (pendingRetries s1)" using old \<open>fst e' \<noteq> p\<close> by (simp add: s1)
      show "hd (snd e') \<notin> set (flows s1)" using old \<open>hd (snd e') \<noteq> c\<close> by (simp add: s1)
      show "hd (snd e') \<in> set (flowsContexts s1)" using old by (simp add: s1)
      show "hd (snd e') \<notin> set (pr_flows (fst e'))" by (rule old)
    next
      show "distinct (map (pr_id \<circ> fst) rest)" "distinct (map (hd \<circ> snd) rest)"
        using Cons.prems by (simp_all add: dispatchable_def)
      show "distinct (map pr_id (pendingRetries s1))"
        using p by (simp add: s1 distinct_map_remove1_key)
      show "length (flows s1) + length rest \<le> current_concurrency cfg s1"
        using Cons.prems p by (simp add: s1 dispatchable_def length_set_add)
      show "\<not> resolved s1" using p by (simp add: s1)
    qed
    note IH = Cons.IH [OF rest, of "set_delete c free"]
    let ?D = "dispatch_retries cfg sleeps rest (set_delete c free) s1"
    have first: "(prim cfg)\<^sup>*\<^sup>* s (fst ?D)"
      using step1 IH by (simp add: converse_rtranclp_into_rtranclp)
    have second: "\<not> resolved (fst ?D)
       \<and> flowsContexts (fst ?D) = flowsContexts s
       \<and> firstPageReady (fst ?D) = firstPageReady s
       \<and> length (flows (fst ?D)) \<le> length (flows s) + length (e # rest)
       \<and> set (flows (fst ?D)) \<subseteq> set (flows s) \<union> (hd \<circ> snd) ` set (e # rest)
       \<and> set (fst (snd ?D)) = set free - (hd \<circ> snd) ` set (e # rest)
       \<and> (distinct free \<longrightarrow> distinct (fst (snd ?D)))" if go: "snd (snd ?D)"
    proof -
      note I = IH [THEN conjunct2, rule_format, OF go]
      have "length (flows (fst ?D)) \<le> length (flows s) + length (e # rest)"
        using I p by (simp add: s1 length_set_add)
      moreover have "set (flows (fst ?D)) \<subseteq> set (flows s) \<union> (hd \<circ> snd) ` set (e # rest)"
        using I by (auto simp: s1 e available)
      moreover have "set (fst (snd ?D)) = set free - (hd \<circ> snd) ` set (e # rest)"
        using I by (auto simp: e available)
      ultimately show ?thesis using I by (simp add: s1)
    qed
    show ?thesis unfolding unfold using first second by blast
  qed
qed

lemma nth_update_pair:
  "i < length q \<Longrightarrow> q[j := (fst (q ! j), f (snd (q ! j)))] ! i =
     (if i = j then (fst (q ! i), f (snd (q ! i))) else q ! i)"
  by (cases "i = j") simp_all

lemma add_available_simps [simp]:
  "length (add_available j c q) = length q"
  "map fst (add_available j c q) = map fst q"
  "i < length q \<Longrightarrow> snd (add_available j c q ! i) = (if i = j then set_add c (snd (q ! i)) else snd (q ! i))"
  "i < length q \<Longrightarrow> fst (add_available j c q ! i) = fst (q ! i)"
  by (simp_all add: add_available_def nth_update_pair list_eq_iff_nth_eq)

lemma delete_available_simps [simp]:
  "length (delete_available j c q) = length q"
  "map fst (delete_available j c q) = map fst q"
  "i < length q \<Longrightarrow> snd (delete_available j c q ! i) = (if i = j then set_delete c (snd (q ! i)) else snd (q ! i))"
  "i < length q \<Longrightarrow> fst (delete_available j c q ! i) = fst (q ! i)"
  by (simp_all add: delete_available_def nth_update_pair list_eq_iff_nth_eq)

lemma queue_okI:
  assumes "\<And>k. k < length q \<Longrightarrow> distinct (snd (q ! k))"
    "\<And>k. k < length q \<Longrightarrow> set (snd (q ! k)) \<subseteq> set free"
    "\<And>k. k < length q \<Longrightarrow> set (snd (q ! k)) \<inter> set (pr_flows (fst (q ! k))) = {}"
    "\<And>c k. m c = Some k \<longleftrightarrow> k < length q \<and> c \<in> set (snd (q ! k))"
  shows "queue_ok free q m"
  using assms unfolding queue_ok_def by blast

lemma queue_okD:
  assumes "queue_ok free q m"
  shows "\<And>k. k < length q \<Longrightarrow> distinct (snd (q ! k))"
    "\<And>k. k < length q \<Longrightarrow> set (snd (q ! k)) \<subseteq> set free"
    "\<And>k. k < length q \<Longrightarrow> set (snd (q ! k)) \<inter> set (pr_flows (fst (q ! k))) = {}"
    "\<And>c k. m c = Some k \<longleftrightarrow> k < length q \<and> c \<in> set (snd (q ! k))"
  using assms unfolding queue_ok_def by blast+

lemma queue_ok_add:
  assumes "queue_ok free q m" "j < length q" "c \<in> set free" "c \<notin> set (pr_flows (fst (q ! j)))"
    "m c = None"
  shows "queue_ok free (add_available j c q) (m(c \<mapsto> j))"
proof (rule queue_okI)
  note old = queue_okD [OF assms(1)]
  have fresh: "\<And>k. k < length q \<Longrightarrow> c \<notin> set (snd (q ! k))"
    using old(4) assms(5) by (metis option.distinct(1))
  fix k assume "k < length (add_available j c q)"
  then have k: "k < length q" by simp
  show "distinct (snd (add_available j c q ! k))" using old(1) [OF k] k by auto
  show "set (snd (add_available j c q ! k)) \<subseteq> set free" using old(2) [OF k] k assms(3) by auto
  show "set (snd (add_available j c q ! k)) \<inter> set (pr_flows (fst (add_available j c q ! k))) = {}"
    using old(3) [OF k] k assms(4) by auto
next
  note old = queue_okD [OF assms(1)]
  have fresh: "\<And>k. k < length q \<Longrightarrow> c \<notin> set (snd (q ! k))"
    using old(4) assms(5) by (metis option.distinct(1))
  fix c' k
  show "((m(c \<mapsto> j)) c' = Some k) =
     (k < length (add_available j c q) \<and> c' \<in> set (snd (add_available j c q ! k)))"
  proof (cases "k < length q")
    case True
    then show ?thesis using fresh [OF True] old(4) [of c' k] assms(2) by (cases "c' = c") auto
  next
    case False
    then show ?thesis using old(4) [of c' k] assms(2) by (cases "c' = c") auto
  qed
qed

lemma queue_ok_move:
  assumes "queue_ok free q m" "j < length q" "c \<in> set free" "c \<notin> set (pr_flows (fst (q ! j)))"
    "m c = Some i"
  shows "queue_ok free (add_available j c (delete_available i c q)) (m(c \<mapsto> j))"
proof (rule queue_okI)
  note old = queue_okD [OF assms(1)]
  fix k assume "k < length (add_available j c (delete_available i c q))"
  then have k: "k < length q" by simp
  show "distinct (snd (add_available j c (delete_available i c q) ! k))"
    using old(1) [OF k] k by auto
  show "set (snd (add_available j c (delete_available i c q) ! k)) \<subseteq> set free"
    using old(2) [OF k] k assms(3) by auto
  show "set (snd (add_available j c (delete_available i c q) ! k)) \<inter>
      set (pr_flows (fst (add_available j c (delete_available i c q) ! k))) = {}"
    using old(3) [OF k] k assms(4) by auto
next
  note old = queue_okD [OF assms(1)]
  fix c' k
  show "((m(c \<mapsto> j)) c' = Some k) =
     (k < length (add_available j c (delete_available i c q)) \<and>
      c' \<in> set (snd (add_available j c (delete_available i c q) ! k)))"
  proof (cases "k < length q")
    case True
    have "c \<in> set (snd (q ! k)) \<longleftrightarrow> k = i" using old(4) [of c k] assms(5) True by auto
    then show ?thesis using True old(4) [of c' k] assms(2) by (cases "c' = c") auto
  next
    case False
    then show ?thesis using old(4) [of c' k] assms(2) by (cases "c' = c") auto
  qed
qed

lemma removeAll_nonempty:
  assumes "distinct xs" "1 < length xs"
  shows "removeAll c xs \<noteq> []"
proof -
  from assms(2) obtain x y zs where xs: "xs = x # y # zs"
    by (cases xs; cases "tl xs") auto
  with assms(1) have "x \<noteq> y" by simp
  then show ?thesis by (auto simp: xs)
qed

lemma claim_ok:
  assumes "queue_ok free q m" "j < length q" "set cs \<subseteq> set free"
    "set cs \<inter> set (pr_flows (fst (q ! j))) = {}"
  shows "queue_ok free (fst (claim cs j (q, m))) (snd (claim cs j (q, m))) \<and>
    map fst (fst (claim cs j (q, m))) = map fst q \<and>
    (\<forall>i<length q. i \<noteq> j \<longrightarrow> snd (q ! i) \<noteq> [] \<longrightarrow> snd (fst (claim cs j (q, m)) ! i) \<noteq> [])"
  using assms
proof (induction cs arbitrary: q m)
  case Nil
  then show ?case by simp
next
  case (Cons c cs)
  have c: "c \<in> set free" "c \<notin> set (pr_flows (fst (q ! j)))" using Cons.prems by auto
  show ?case
  proof (cases "m c")
    case None
    let ?q = "add_available j c q" and ?m = "m(c \<mapsto> j)"
    have ok: "queue_ok free ?q ?m" using Cons.prems(1,2) c None by (rule queue_ok_add)
    have "queue_ok free (fst (claim cs j (?q, ?m))) (snd (claim cs j (?q, ?m))) \<and>
      map fst (fst (claim cs j (?q, ?m))) = map fst ?q \<and>
      (\<forall>i<length ?q. i \<noteq> j \<longrightarrow> snd (?q ! i) \<noteq> [] \<longrightarrow> snd (fst (claim cs j (?q, ?m)) ! i) \<noteq> [])"
    proof (rule Cons.IH [OF ok])
      show "j < length ?q" using Cons.prems(2) by simp
      show "set cs \<subseteq> set free" using Cons.prems(3) by simp
      show "set cs \<inter> set (pr_flows (fst (?q ! j))) = {}" using Cons.prems(2,4) by simp
    qed
    then show ?thesis using None by simp
  next
    case (Some i)
    show ?thesis
    proof (cases "length (snd (q ! i)) \<le> 1")
      case True
      have "queue_ok free (fst (claim cs j (q, m))) (snd (claim cs j (q, m))) \<and>
        map fst (fst (claim cs j (q, m))) = map fst q \<and>
        (\<forall>i<length q. i \<noteq> j \<longrightarrow> snd (q ! i) \<noteq> [] \<longrightarrow> snd (fst (claim cs j (q, m)) ! i) \<noteq> [])"
      proof (rule Cons.IH [OF Cons.prems(1,2)])
        show "set cs \<subseteq> set free" using Cons.prems(3) by simp
        show "set cs \<inter> set (pr_flows (fst (q ! j))) = {}" using Cons.prems(4) by simp
      qed
      then show ?thesis using Some True by simp
    next
      case False
      let ?q = "add_available j c (delete_available i c q)" and ?m = "m(c \<mapsto> j)"
      have ok: "queue_ok free ?q ?m" using Cons.prems(1,2) c Some by (rule queue_ok_move)
      have i: "i < length q" using queue_okD(4) [OF Cons.prems(1), of c i] Some by simp
      have "distinct (snd (q ! i))" using queue_okD(1) [OF Cons.prems(1) i] .
      then have keep: "set_delete c (snd (q ! i)) \<noteq> []"
        using False by (simp add: set_delete_def removeAll_nonempty)
      have IH: "queue_ok free (fst (claim cs j (?q, ?m))) (snd (claim cs j (?q, ?m))) \<and>
        map fst (fst (claim cs j (?q, ?m))) = map fst ?q \<and>
        (\<forall>k<length ?q. k \<noteq> j \<longrightarrow> snd (?q ! k) \<noteq> [] \<longrightarrow> snd (fst (claim cs j (?q, ?m)) ! k) \<noteq> [])"
      proof (rule Cons.IH [OF ok])
        show "j < length ?q" using Cons.prems(2) by simp
        show "set cs \<subseteq> set free" using Cons.prems(3) by simp
        show "set cs \<inter> set (pr_flows (fst (?q ! j))) = {}" using Cons.prems(2,4) by simp
      qed
      have "\<forall>k<length q. k \<noteq> j \<longrightarrow> snd (q ! k) \<noteq> [] \<longrightarrow> snd (fst (claim cs j (?q, ?m)) ! k) \<noteq> []"
      proof (intro allI impI)
        fix k assume k: "k < length q" "k \<noteq> j" "snd (q ! k) \<noteq> []"
        then have "snd (?q ! k) \<noteq> []" using keep by auto
        with IH k show "snd (fst (claim cs j (?q, ?m)) ! k) \<noteq> []" by simp
      qed
      with IH show ?thesis using Some False by simp
    qed
  qed
qed

lemma available_for_props:
  "pr_id (fst (available_for n free p)) = pr_id p"
  "set (snd (available_for n free p)) \<subseteq> set free"
  "set (snd (available_for n free p)) \<inter> set (pr_flows (fst (available_for n free p))) = {}"
  "fst (available_for n free p) = p \<or>
     (fst (available_for n free p) = p\<lparr> pr_flows := [] \<rparr> \<and> n \<le> length (pr_flows p))"
  by (auto simp: available_for_def)

lemma queue_ok_snoc:
  assumes "queue_ok free q m"
  shows "queue_ok free (q @ [(p, [])]) m"
proof (rule queue_okI)
  note old = queue_okD [OF assms]
  fix k assume k: "k < length (q @ [(p, [])])"
  show "distinct (snd ((q @ [(p, [])]) ! k))" using old(1) [of k] k by (simp add: nth_append)
  show "set (snd ((q @ [(p, [])]) ! k)) \<subseteq> set free" using old(2) [of k] k by (simp add: nth_append)
  show "set (snd ((q @ [(p, [])]) ! k)) \<inter> set (pr_flows (fst ((q @ [(p, [])]) ! k))) = {}"
    using old(3) [of k] k by (simp add: nth_append)
next
  note old = queue_okD [OF assms]
  fix c k
  show "(m c = Some k) = (k < length (q @ [(p, [])]) \<and> c \<in> set (snd ((q @ [(p, [])]) ! k)))"
    using old(4) [of c k] by (auto simp: nth_append)
qed

lemma queue_ok_butlast:
  assumes "queue_ok free q m" "q \<noteq> []" "snd (last q) = []"
  shows "queue_ok free (butlast q) m"
proof (rule queue_okI)
  note old = queue_okD [OF assms(1)]
  fix k assume k: "k < length (butlast q)"
  then have k': "k < length q" by simp
  show "distinct (snd (butlast q ! k))" using old(1) [OF k'] k by (simp add: nth_butlast)
  show "set (snd (butlast q ! k)) \<subseteq> set free" using old(2) [OF k'] k by (simp add: nth_butlast)
  show "set (snd (butlast q ! k)) \<inter> set (pr_flows (fst (butlast q ! k))) = {}"
    using old(3) [OF k'] k by (simp add: nth_butlast)
next
  note old = queue_okD [OF assms(1)]
  fix c k
  have "last q = q ! (length q - 1)" using assms(2) by (simp add: last_conv_nth)
  then have "c \<notin> set (snd (q ! (length q - 1)))" using assms(3) by simp
  then show "(m c = Some k) = (k < length (butlast q) \<and> c \<in> set (snd (butlast q ! k)))"
    using old(4) [of c k] by (cases "k < length q - 1"; cases "k = length q - 1") (auto simp: nth_butlast)
qed

lemma build_queue_unfold:
  "build_queue n free visited (p # ps) (q, m) left =
     (let a = available_for n free p;
          r = claim (snd a) (length q) (q @ [(fst a, [])], m)
      in if snd (last (fst r)) \<noteq> [] then
           (if left - 1 \<le> 0 then (fst r, visited @ fst a # ps, left - 1)
            else build_queue n free (visited @ [fst a]) ps (fst r, snd r) (left - 1))
         else build_queue n free (visited @ [fst a]) ps (butlast (fst r), snd r) left)"
  by (simp add: Let_def)

lemma build_queue_ok:
  assumes "queue_ok free q m" "\<forall>i<length q. snd (q ! i) \<noteq> []"
    "distinct (map pr_id (map fst q))" "set (map fst q) \<subseteq> set visited"
    "distinct (map pr_id (visited @ ps))" "0 < left"
  shows "built free (map pr_id (visited @ ps)) (int (length q) + left)
     (build_queue n free visited ps (q, m) left)"
  using assms
proof (induction ps arbitrary: visited q m left)
  case Nil
  then show ?case unfolding built_def by auto
next
  case (Cons p ps)
  define a where "a = available_for n free p"
  define q0 where "q0 = q @ [(fst a, [])]"
  define r where "r = claim (snd a) (length q) (q0, m)"
  have unfold: "build_queue n free visited (p # ps) (q, m) left =
      (if snd (last (fst r)) \<noteq> [] then
         (if left - 1 \<le> 0 then (fst r, visited @ fst a # ps, left - 1)
          else build_queue n free (visited @ [fst a]) ps (fst r, snd r) (left - 1))
       else build_queue n free (visited @ [fst a]) ps (butlast (fst r), snd r) left)"
    unfolding build_queue_unfold by (simp add: a_def q0_def r_def Let_def)
  have a: "pr_id (fst a) = pr_id p" "set (snd a) \<subseteq> set free"
    "set (snd a) \<inter> set (pr_flows (fst a)) = {}"
    unfolding a_def by (rule available_for_props)+
  have ok0: "queue_ok free q0 m"
    unfolding q0_def using Cons.prems(1) by (rule queue_ok_snoc)
  have "queue_ok free (fst (claim (snd a) (length q) (q0, m))) (snd (claim (snd a) (length q) (q0, m))) \<and>
    map fst (fst (claim (snd a) (length q) (q0, m))) = map fst q0 \<and>
    (\<forall>i<length q0. i \<noteq> length q \<longrightarrow> snd (q0 ! i) \<noteq> [] \<longrightarrow>
       snd (fst (claim (snd a) (length q) (q0, m)) ! i) \<noteq> [])"
  proof (rule claim_ok [OF ok0])
    show "length q < length q0" by (simp add: q0_def)
    show "set (snd a) \<subseteq> set free" by (rule a)
    show "set (snd a) \<inter> set (pr_flows (fst (q0 ! length q))) = {}" using a(3) by (simp add: q0_def)
  qed
  then have okr: "queue_ok free (fst r) (snd r)"
    and mf: "map fst (fst r) = map fst q @ [fst a]"
    and ne: "\<And>i. i < length q \<Longrightarrow> snd (fst r ! i) \<noteq> []"
    using Cons.prems(2) by (auto simp: r_def q0_def nth_append)
  from mf have len: "length (fst r) = Suc (length q)"
    by (metis length_append_singleton length_map)
  then have nonempty: "fst r \<noteq> []" by auto
  have last: "last (fst r) = fst r ! length q"
    using len nonempty by (simp add: last_conv_nth)
  have fresh: "pr_id p \<notin> pr_id ` set visited" using Cons.prems(5) by auto
  then have fresh': "pr_id (fst a) \<notin> set (map pr_id (map fst q))"
    using Cons.prems(4) a(1) by auto
  have ids: "map pr_id ((visited @ [fst a]) @ ps) = map pr_id (visited @ p # ps)"
    using a(1) by simp
  have dist: "distinct (map pr_id ((visited @ [fst a]) @ ps))"
    unfolding ids by (rule Cons.prems(5))
  show ?case
  proof (cases "snd (last (fst r)) \<noteq> []")
    case True
    have ne': "\<forall>i<length (fst r). snd (fst r ! i) \<noteq> []"
    proof (intro allI impI)
      fix i assume "i < length (fst r)"
      then have "i < length q \<or> i = length q" using len by auto
      then show "snd (fst r ! i) \<noteq> []" using ne True last by auto
    qed
    have d': "distinct (map pr_id (map fst (fst r)))"
      using Cons.prems(3) fresh' by (simp add: mf)
    have sub': "set (map fst (fst r)) \<subseteq> set (visited @ [fst a])"
      using Cons.prems(4) by (auto simp: mf)
    show ?thesis
    proof (cases "left - 1 \<le> 0")
      case stop: True
      have "built free (map pr_id (visited @ p # ps)) (int (length q) + left)
          (fst r, visited @ fst a # ps, left - 1)"
        unfolding built_def using okr ne' d' sub' a(1) len Cons.prems(6) by auto
      then show ?thesis using True stop unfolding unfold by simp
    next
      case more: False
      have "built free (map pr_id ((visited @ [fst a]) @ ps)) (int (length (fst r)) + (left - 1))
          (build_queue n free (visited @ [fst a]) ps (fst r, snd r) (left - 1))"
        using okr ne' d' sub' dist more by (intro Cons.IH) simp_all
      then show ?thesis using True more unfolding unfold ids by (simp add: len)
    qed
  next
    case False
    then have empty: "snd (last (fst r)) = []" by simp
    have okb: "queue_ok free (butlast (fst r)) (snd r)"
      using okr nonempty empty by (rule queue_ok_butlast)
    have mfb: "map fst (butlast (fst r)) = map fst q"
      by (simp add: map_butlast mf)
    have lenb: "length (butlast (fst r)) = length q" using len by simp
    have neb: "\<forall>i<length (butlast (fst r)). snd (butlast (fst r) ! i) \<noteq> []"
      using ne lenb by (simp add: nth_butlast)
    have "built free (map pr_id ((visited @ [fst a]) @ ps)) (int (length (butlast (fst r))) + left)
        (build_queue n free (visited @ [fst a]) ps (butlast (fst r), snd r) left)"
    proof (rule Cons.IH [OF okb neb])
      show "distinct (map pr_id (map fst (butlast (fst r))))" using Cons.prems(3) by (simp add: mfb)
      show "set (map fst (butlast (fst r))) \<subseteq> set (visited @ [fst a])"
        using Cons.prems(4) unfolding mfb by auto
      show "distinct (map pr_id ((visited @ [fst a]) @ ps))" by (rule dist)
      show "0 < left" by (rule Cons.prems(6))
    qed
    then show ?thesis using False unfolding unfold ids by (simp add: len)
  qed
qed

lemma build_queue_prims:
  assumes "retryDistinctFlows (errorHandlingPolicy cfg)"
  shows "(prim cfg)\<^sup>*\<^sup>* (s\<lparr> pendingRetries := visited @ ps \<rparr>)
     (s\<lparr> pendingRetries := fst (snd (build_queue (length (flowsContexts s)) free visited ps (q, m) left)) \<rparr>)"
proof (induction ps arbitrary: visited q m left)
  case Nil
  then show ?case by simp
next
  case (Cons p ps)
  define n where "n = length (flowsContexts s)"
  define a where "a = available_for n free p"
  define r where "r = claim (snd a) (length q) (q @ [(fst a, [])], m)"
  have unfold: "build_queue n free visited (p # ps) (q, m) left =
      (if snd (last (fst r)) \<noteq> [] then
         (if left - 1 \<le> 0 then (fst r, visited @ fst a # ps, left - 1)
          else build_queue n free (visited @ [fst a]) ps (fst r, snd r) (left - 1))
       else build_queue n free (visited @ [fst a]) ps (butlast (fst r), snd r) left)"
    unfolding build_queue_unfold by (simp add: a_def r_def Let_def)
  have first: "(prim cfg)\<^sup>*\<^sup>* (s\<lparr> pendingRetries := visited @ p # ps \<rparr>)
      (s\<lparr> pendingRetries := visited @ fst a # ps \<rparr>)"
  proof (cases "fst a = p")
    case True
    then show ?thesis by simp
  next
    case False
    then have reset: "fst a = p\<lparr> pr_flows := [] \<rparr>" "n \<le> length (pr_flows p)"
      using available_for_props(4) [of n free p] by (auto simp: a_def)
    have "prim cfg (s\<lparr> pendingRetries := visited @ p # ps \<rparr>)
        ((s\<lparr> pendingRetries := visited @ p # ps \<rparr>)\<lparr> pendingRetries := visited @ p\<lparr> pr_flows := [] \<rparr> # ps \<rparr>)"
      using assms reset(2) by (intro p_forget) (simp_all add: n_def)
    then show ?thesis by (simp add: reset(1))
  qed
  have rest: "\<And>q m left. (prim cfg)\<^sup>*\<^sup>* (s\<lparr> pendingRetries := visited @ fst a # ps \<rparr>)
      (s\<lparr> pendingRetries := fst (snd (build_queue n free (visited @ [fst a]) ps (q, m) left)) \<rparr>)"
    using Cons.IH [of "visited @ [fst a]"] by (simp add: n_def)
  show ?case
    unfolding n_def [symmetric] unfold using first rest [of "fst r" "snd r"] rest [of "butlast (fst r)" "snd r"]
    by (auto intro: rtranclp_trans)
qed

lemma foldl_set_add:
  "set (foldl (\<lambda>acc x. set_add x acc) acc xs) = set acc \<union> set xs \<and>
   (distinct acc \<longrightarrow> distinct (foldl (\<lambda>acc x. set_add x acc) acc xs))"
  by (induction xs arbitrary: acc) auto

lemma set_of_list_props [simp]:
  "set (set_of_list xs) = set xs" "distinct (set_of_list xs)"
  using foldl_set_add [of "[]" xs] by (simp_all add: set_of_list_def)

lemma built_dispatchable:
  assumes "built free (map pr_id prs) (int (current_concurrency cfg s) - int (length (flows s))) B"
    "distinct (map pr_id prs)" "set free \<inter> set (flows s) = {}"
    "set free \<subseteq> set (flowsContexts s)" "\<not> resolved s"
  shows "dispatchable cfg (s\<lparr> pendingRetries := fst (snd B) \<rparr>) (fst B)"
proof -
  from assms(1) obtain m where ok: "queue_ok free (fst B) m"
    and ne: "\<And>i. i < length (fst B) \<Longrightarrow> snd (fst B ! i) \<noteq> []"
    and ids: "distinct (map pr_id (map fst (fst B)))"
    and sub: "set (map fst (fst B)) \<subseteq> set (fst (snd B))"
    and same: "map pr_id (fst (snd B)) = map pr_id prs"
    and len: "int (length (fst B)) + snd (snd B) = int (current_concurrency cfg s) - int (length (flows s))"
    and left: "0 \<le> snd (snd B)"
    unfolding built_def by blast
  note q = queue_okD [OF ok]
  have hd_in: "\<And>i. i < length (fst B) \<Longrightarrow> hd (snd (fst B ! i)) \<in> set (snd (fst B ! i))"
    using ne by simp
  have entries: "\<forall>e \<in> set (fst B). snd e \<noteq> [] \<and> fst e \<in> set (fst (snd B)) \<and>
      hd (snd e) \<notin> set (flows s) \<and> hd (snd e) \<in> set (flowsContexts s) \<and>
      hd (snd e) \<notin> set (pr_flows (fst e))"
  proof
    fix e assume "e \<in> set (fst B)"
    then obtain i where i: "i < length (fst B)" "e = fst B ! i" by (auto simp: in_set_conv_nth)
    have "fst e \<in> set (map fst (fst B))" using \<open>e \<in> set (fst B)\<close> by simp
    then have "fst e \<in> set (fst (snd B))" using sub by blast
    moreover have "hd (snd e) \<in> set free" using hd_in [OF i(1)] q(2) [OF i(1)] i(2) by auto
    moreover have "hd (snd e) \<notin> set (pr_flows (fst e))"
      using hd_in [OF i(1)] q(3) [OF i(1)] i(2) by auto
    ultimately show "snd e \<noteq> [] \<and> fst e \<in> set (fst (snd B)) \<and>
      hd (snd e) \<notin> set (flows s) \<and> hd (snd e) \<in> set (flowsContexts s) \<and>
      hd (snd e) \<notin> set (pr_flows (fst e))"
      using ne [OF i(1)] i(2) assms(3,4) by auto
  qed
  have heads: "distinct (map (hd \<circ> snd) (fst B))"
  proof (subst distinct_conv_nth, intro allI impI)
    fix i j assume ij: "i < length (map (hd \<circ> snd) (fst B))" "j < length (map (hd \<circ> snd) (fst B))" "i \<noteq> j"
    then have i: "i < length (fst B)" and j: "j < length (fst B)" by simp_all
    have "m (hd (snd (fst B ! i))) = Some i" using q(4) hd_in [OF i] i by blast
    moreover have "m (hd (snd (fst B ! j))) = Some j" using q(4) hd_in [OF j] j by blast
    ultimately have "hd (snd (fst B ! i)) \<noteq> hd (snd (fst B ! j))" using ij(3) by auto
    then show "map (hd \<circ> snd) (fst B) ! i \<noteq> map (hd \<circ> snd) (fst B) ! j" using i j by simp
  qed
  have room: "length (flows s) + length (fst B) \<le> current_concurrency cfg s"
    using len left by linarith
  show ?thesis
    unfolding dispatchable_def
    using entries heads ids same assms(2,5) room by (simp add: comp_def)
qed

lemma startFlows_prims:
  assumes "distinct (map pr_id (pendingRetries s))"
  shows "(prim cfg)\<^sup>*\<^sup>* s (startFlows cfg sleeps inits s)"
proof -
  define u where "u = updateFlowsContexts cfg inits s"
  define s1 where "s1 = snd u"
  define L where "L = int (current_concurrency cfg s1) - int (length (flows s1))"
  define free where "free = set_of_list (filter (\<lambda>c. c \<notin> set (flows s1)) (flowsContexts s1))"
  define B where "B = build_queue (length (flowsContexts s1)) free [] (pendingRetries s1) ([], (\<lambda>c. None)) L"
  define s2 where "s2 = s1\<lparr> pendingRetries := fst (snd B) \<rparr>"
  define D where "D = dispatch_retries cfg sleeps (fst B) free s2"
  have unfold: "startFlows cfg sleeps inits s =
     (if resolved s then s
      else if executorDone s \<and> flows s = [] \<and> pendingRetries s = [] then finish s
      else if \<not> fst u then s1
      else if L \<le> 0 then s1
      else if retryDistinctFlows (errorHandlingPolicy cfg) then
        (if \<not> snd (snd D) then fst D
         else if snd (snd B) \<le> 0 then fst D
         else dispatch_free cfg sleeps (fst (snd D)) (snd (snd B)) (fst D))
      else dispatch_free cfg sleeps free L s1)"
    by (simp add: startFlows_def u_def s1_def L_def free_def B_def s2_def D_def Let_def)
  have to_s1: "(prim cfg)\<^sup>*\<^sup>* s s1"
    unfolding s1_def u_def by (rule updateFlowsContexts_prims)
  show ?thesis
  proof (cases "resolved s \<or> (executorDone s \<and> flows s = [] \<and> pendingRetries s = []) \<or> \<not> fst u \<or> L \<le> 0")
    case True
    then show ?thesis unfolding unfold using to_s1 by (auto intro: p_finish r_into_rtranclp)
  next
    case False
    then have nr: "\<not> resolved s" and fu: "fst u" and L: "0 < L" by auto
    from fu obtain cs where s1: "s1 = s\<lparr> flowsContexts := flowsContexts s @ cs \<rparr>"
      using updateFlowsContexts_shape [of cfg inits s] by (auto simp: u_def s1_def)
    have nr1: "\<not> resolved s1" using nr by (simp add: s1)
    have prs1: "pendingRetries s1 = pendingRetries s" by (simp add: s1)
    have free: "distinct free" "set free \<inter> set (flows s1) = {}" "set free \<subseteq> set (flowsContexts s1)"
      by (auto simp: free_def)
    show ?thesis
    proof (cases "retryDistinctFlows (errorHandlingPolicy cfg)")
      case nd: False
      have "(prim cfg)\<^sup>*\<^sup>* s1 (dispatch_free cfg sleeps free L s1)"
        using nr1 free L by (intro dispatch_free_prims) (simp_all add: L_def)
      with to_s1 show ?thesis using False nd unfolding unfold by (auto intro: rtranclp_trans)
    next
      case d: True
      have ok0: "queue_ok free [] (\<lambda>c. None)" by (simp add: queue_ok_def)
      have built: "built free (map pr_id (pendingRetries s1)) L B"
        using build_queue_ok [OF ok0, where visited = "[]" and ps = "pendingRetries s1" and left = L
            and n = "length (flowsContexts s1)"] assms L
        by (simp add: B_def prs1)
      have to_s2: "(prim cfg)\<^sup>*\<^sup>* s1 s2"
        using build_queue_prims [OF d, where s = s1 and visited = "[]" and ps = "pendingRetries s1"
            and free = free and q = "[]" and m = "\<lambda>c. None" and left = L]
        by (simp add: s2_def B_def)
      have disp: "dispatchable cfg s2 (fst B)"
        unfolding s2_def using built assms free nr1
        by (intro built_dispatchable [where prs = "pendingRetries s1"]) (simp_all add: L_def prs1)
      note Dall = dispatch_retries_prims [OF disp, of sleeps free, folded D_def]
      have to_D: "(prim cfg)\<^sup>*\<^sup>* s (fst D)"
        using to_s1 to_s2 Dall by (auto intro: rtranclp_trans)
      show ?thesis
      proof (cases "\<not> snd (snd D) \<or> snd (snd B) \<le> 0")
        case True
        then show ?thesis using False d to_D unfolding unfold by auto
      next
        case go: False
        then have more: "\<not> snd (snd B) \<le> 0" and going: "snd (snd D)" by auto
        note Dp = Dall [THEN conjunct2, rule_format, OF going]
        from built have len: "int (length (fst B)) + snd (snd B) = L" by (simp add: built_def)
        have s2f: "flows s2 = flows s1" "flowsContexts s2 = flowsContexts s1"
          "firstPageReady s2 = firstPageReady s1"
          by (simp_all add: s2_def)
        have cc: "current_concurrency cfg (fst D) = current_concurrency cfg s1"
          using Dp by (intro current_concurrency_cong) (simp_all add: s2f)
        have "(prim cfg)\<^sup>*\<^sup>* (fst D) (dispatch_free cfg sleeps (fst (snd D)) (snd (snd B)) (fst D))"
        proof (rule dispatch_free_prims)
          show "\<not> resolved (fst D)" using Dp by simp
          show "distinct (fst (snd D))" using Dp free(1) by simp
          show "set (fst (snd D)) \<inter> set (flows (fst D)) = {}"
            using Dp free(2) by (auto simp: s2f)
          show "set (fst (snd D)) \<subseteq> set (flowsContexts (fst D))"
            using Dp free(3) by (auto simp: s2f)
          have "length (flows (fst D)) \<le> length (flows s1) + length (fst B)"
            using Dp by (simp add: s2f)
          then show "int (length (flows (fst D))) + snd (snd B) \<le> int (current_concurrency cfg (fst D))"
            using len unfolding cc L_def by linarith
          show "0 < snd (snd B)" using more by simp
        qed
        with to_D have "(prim cfg)\<^sup>*\<^sup>* s (dispatch_free cfg sleeps (fst (snd D)) (snd (snd B)) (fst D))"
          by (rule rtranclp_trans)
        then show ?thesis using False d more going unfolding unfold by auto
      qed
    qed
  qed
qed

lemma step_prims:
  assumes "step cfg s e = Some s'" "distinct (map pr_id (pendingRetries s))"
  shows "(prim cfg)\<^sup>*\<^sup>* s s'"
proof (cases e)
  case (Tick sleeps inits)
  with assms(1) have t: "0 < ticks s" and s': "s' = startFlows cfg sleeps inits (s\<lparr> ticks := ticks s - 1 \<rparr>)"
    by (auto split: if_splits)
  have "prim cfg s (s\<lparr> ticks := ticks s - 1 \<rparr>)" using t by (rule p_tick)
  moreover have "(prim cfg)\<^sup>*\<^sup>* (s\<lparr> ticks := ticks s - 1 \<rparr>) s'"
    unfolding s' using assms(2) by (intro startFlows_prims) simp
  ultimately show ?thesis by (rule converse_rtranclp_into_rtranclp)
next
  case (Wake c canceled)
  with assms(1) obtain pr where "workers s c = Some (Sleeping pr)" "canceled \<longrightarrow> aborted s"
    "s' = hfe_after_sleep cfg canceled c pr s"
    by (auto split: option.splits worker.splits if_splits)
  then show ?thesis by (auto intro: p_wake)
next
  case (Settle c out time)
  with assms(1) obtain attempts work pr where "workers s c = Some (Fetching attempts work pr)"
    "s' = settle cfg c attempts work pr out time s"
    by (auto simp: settle_def Let_def split: option.splits worker.splits)
  then show ?thesis by (auto intro: p_settle)
next
  case (Continue c)
  with assms(1) obtain attempts res pr where "workers s c = Some (Returning attempts res pr)"
    "s' = hfe_finish c attempts res pr s"
    by (auto split: option.splits worker.splits)
  then show ?thesis by (auto intro: p_continue)
next
  case Abort
  with assms(1) have "s' = abort s" by (auto split: if_splits)
  then show ?thesis by (auto intro: p_abort)
qed

lemma hfe_exec_workers:
  "\<exists>w. workers (hfe_exec cfg c pr s) = (workers s)(c \<mapsto> w) \<and> held w = pr"
proof (cases "snd (snd (exec_begin cfg c (case pr of Some p \<Rightarrow> attemptsLeft p
      | None \<Rightarrow> retryLimit (errorHandlingPolicy cfg)) (map_option pr_retry pr) (drv s)))")
  case (Awaiting work)
  then have "workers (hfe_exec cfg c pr s) = (workers s)(c \<mapsto> Fetching (case pr of Some p \<Rightarrow> attemptsLeft p
      | None \<Rightarrow> retryLimit (errorHandlingPolicy cfg)) work pr)"
    by (simp add: hfe_exec_def Let_def)
  moreover have "held (Fetching (case pr of Some p \<Rightarrow> attemptsLeft p
      | None \<Rightarrow> retryLimit (errorHandlingPolicy cfg)) work pr) = pr" by simp
  ultimately show ?thesis by blast
next
  case (Finished res)
  then have "workers (hfe_exec cfg c pr s) = (workers s)(c \<mapsto> Returning (case pr of Some p \<Rightarrow> attemptsLeft p
      | None \<Rightarrow> retryLimit (errorHandlingPolicy cfg)) res pr)"
    by (simp add: hfe_exec_def Let_def)
  moreover have "held (Returning (case pr of Some p \<Rightarrow> attemptsLeft p
      | None \<Rightarrow> retryLimit (errorHandlingPolicy cfg)) res pr) = pr" by simp
  ultimately show ?thesis by blast
qed

lemma executorDone_hfe_exec: "executorDone s \<Longrightarrow> executorDone (hfe_exec cfg c pr s)"
  by (simp add: hfe_exec_def Let_def split: exec_status.splits)

lemma hfe_after_sleep_cases:
  "suspended c pr s (hfe_after_sleep cfg canceled c pr s) \<or> released c s (hfe_after_sleep cfg canceled c pr s)"
  using hfe_exec_workers [of cfg c pr s]
  by (auto simp: hfe_after_sleep_def suspended_def released_def)

lemma hfe_start_cases:
  "suspended c pr s (hfe_start cfg sleeps c pr s) \<or> released c s (hfe_start cfg sleeps c pr s)"
proof -
  have "suspended c pr s (s\<lparr> workers := (workers s)(c \<mapsto> Sleeping pr) \<rparr>)"
    by (auto simp: suspended_def)
  moreover have "suspended c pr s (hfe_exec cfg c pr (s\<lparr> flowsLastExecution := set_add c (flowsLastExecution s) \<rparr>))"
    using hfe_exec_workers [of cfg c pr "s\<lparr> flowsLastExecution := set_add c (flowsLastExecution s) \<rparr>"]
    by (auto simp: suspended_def)
  ultimately show ?thesis
    using hfe_after_sleep_cases [of c pr s cfg False] by (auto simp: hfe_start_def)
qed

lemma hfe_start_retry_suspended:
  "suspended c (Some p) s (hfe_start cfg sleeps c (Some p) s)"
proof -
  have "suspended c (Some p) s (s\<lparr> workers := (workers s)(c \<mapsto> Sleeping (Some p)) \<rparr>)"
    by (auto simp: suspended_def)
  moreover have "suspended c (Some p) s (hfe_exec cfg c (Some p) s)"
    using hfe_exec_workers [of cfg c "Some p" s] by (auto simp: suspended_def)
  moreover have "suspended c (Some p) s (hfe_exec cfg c (Some p) (s\<lparr> flowsLastExecution := set_add c (flowsLastExecution s) \<rparr>))"
    using hfe_exec_workers [of cfg c "Some p" "s\<lparr> flowsLastExecution := set_add c (flowsLastExecution s) \<rparr>"]
    by (auto simp: suspended_def)
  ultimately show ?thesis
    by (auto simp: hfe_start_def hfe_after_sleep_def)
qed

lemma executorDone_hfe_after_sleep:
  "executorDone s \<Longrightarrow> executorDone (hfe_after_sleep cfg canceled c pr s)"
  by (simp add: hfe_after_sleep_def executorDone_hfe_exec)

lemma executorDone_hfe_start:
  "executorDone s \<Longrightarrow> executorDone (hfe_start cfg sleeps c pr s)"
  by (simp add: hfe_start_def executorDone_hfe_after_sleep executorDone_hfe_exec)

lemma held_id_suspended:
  "suspended c pr s s' \<Longrightarrow> held_id s' = (held_id s)(c := map_option pr_id pr)"
  by (auto simp: suspended_def held_id_def fun_eq_iff)

lemma held_id_released:
  "released c s s' \<Longrightarrow> held_id s' = (held_id s)(c := None)"
  by (auto simp: released_def held_id_def fun_eq_iff)

lemma held_id_cong:
  "workers s' = workers s \<Longrightarrow> held_id s' = held_id s"
  by (simp add: held_id_def fun_eq_iff)

lemma held_id_None: "workers s c = None \<Longrightarrow> held_id s c = None"
  by (simp add: held_id_def)

lemma busy_after:
  assumes "suspended c pr s0 s' \<or> released c s0 s'" "distinct (flows s0)"
    "insert c (dom (workers s0)) = set (flows s0)"
  shows "busy_ok s'"
proof -
  have f: "set (flows s0) = insert c (dom (workers s0))" using assms(3) by simp
  show ?thesis
    using assms(1,2) unfolding busy_ok_def suspended_def released_def
    by (auto simp: f split: if_splits)
qed

lemma prim_busy_ok:
  assumes "prim cfg s s'" "busy_ok s"
  shows "busy_ok s'"
  using assms
proof (cases rule: prim.cases)
  case (p_retry p c sleeps)
  let ?s0 = "s\<lparr> pendingRetries := remove1 p (pendingRetries s), flows := set_add c (flows s) \<rparr>"
  have "suspended c (Some p) ?s0 s' \<or> released c ?s0 s'"
    unfolding p_retry(1) using hfe_start_cases by blast
  moreover have "distinct (flows ?s0)" using assms(2) by (simp add: busy_ok_def)
  moreover have "insert c (dom (workers ?s0)) = set (flows ?s0)"
    using assms(2) by (simp add: busy_ok_def)
  ultimately show ?thesis by (rule busy_after)
next
  case (p_fresh c sleeps)
  let ?s0 = "s\<lparr> flows := set_add c (flows s) \<rparr>"
  have "suspended c None ?s0 s' \<or> released c ?s0 s'"
    unfolding p_fresh(1) using hfe_start_cases by blast
  moreover have "distinct (flows ?s0)" using assms(2) by (simp add: busy_ok_def)
  moreover have "insert c (dom (workers ?s0)) = set (flows ?s0)"
    using assms(2) by (simp add: busy_ok_def)
  ultimately show ?thesis by (rule busy_after)
next
  case (p_wake c pr canceled)
  have "suspended c pr s s' \<or> released c s s'"
    unfolding p_wake(1) using hfe_after_sleep_cases by blast
  moreover have "distinct (flows s)" using assms(2) by (simp add: busy_ok_def)
  moreover have "insert c (dom (workers s)) = set (flows s)"
    using assms(2) p_wake(2) by (auto simp: busy_ok_def)
  ultimately show ?thesis by (rule busy_after)
next
  case (p_settle c attempts work pr out time)
  then show ?thesis using assms(2) by (auto simp: busy_ok_def settle_def Let_def)
next
  case (p_continue c attempts res pr)
  then show ?thesis using assms(2)
    by (auto simp: busy_ok_def hfe_finish_def release_def split: option.splits if_splits)
qed (use assms(2) in \<open>auto simp: busy_ok_def finish_def abort_def\<close>)

lemma prim_promise_ok:
  assumes "prim cfg s s'" "busy_ok s" "promise_ok s"
  shows "promise_ok s'"
  using assms(1)
proof (cases rule: prim.cases)
  case p_tick
  then show ?thesis using assms(3) by (simp add: promise_ok_def)
next
  case p_finish
  then show ?thesis using assms(3) by (simp add: promise_ok_def finish_def)
next
  case p_abort
  then show ?thesis using assms(3) by (simp add: promise_ok_def finish_def abort_def)
next
  case (p_context c)
  then show ?thesis using assms(3) by (simp add: promise_ok_def)
next
  case (p_forget xs p ys)
  then show ?thesis using assms(3) by (simp add: promise_ok_def)
next
  case (p_retry p c sleeps)
  then show ?thesis using assms(3) by (simp add: promise_ok_def)
next
  case (p_fresh c sleeps)
  then show ?thesis using assms(3) by (simp add: promise_ok_def)
next
  case (p_wake c pr canceled)
  then have "flows s \<noteq> []" using assms(2) by (auto simp: busy_ok_def)
  then show ?thesis using assms(3) p_wake by (simp add: promise_ok_def)
next
  case (p_settle c attempts work pr out time)
  then have "flows s \<noteq> []" using assms(2) by (auto simp: busy_ok_def)
  then show ?thesis using assms(3) p_settle by (simp add: promise_ok_def settle_def Let_def)
next
  case (p_continue c attempts res pr)
  then have "flows s \<noteq> []" using assms(2) by (auto simp: busy_ok_def)
  then show ?thesis using assms(3) p_continue
    by (simp add: promise_ok_def hfe_finish_def split: option.splits)
qed

lemma remove1_key_notin:
  "distinct (map f xs) \<Longrightarrow> x \<in> set xs \<Longrightarrow> f x \<notin> f ` set (remove1 x xs)"
proof (induction xs)
  case Nil
  then show ?case by simp
next
  case (Cons y ys)
  have "set (remove1 x ys) \<subseteq> set ys" by (rule set_remove1_subset)
  with Cons show ?case by (auto simp: image_iff)
qed

lemma ids_okI:
  assumes "distinct (map pr_id (pendingRetries s))"
    "\<And>p. p \<in> set (pendingRetries s) \<Longrightarrow> pr_id p < next_pr_id s"
    "\<And>c i. held_id s c = Some i \<Longrightarrow> i < next_pr_id s"
    "\<And>c i. held_id s c = Some i \<Longrightarrow> i \<notin> pr_id ` set (pendingRetries s)"
    "\<And>c c' i. c \<noteq> c' \<Longrightarrow> held_id s c = Some i \<Longrightarrow> held_id s c' \<noteq> Some i"
  shows "ids_ok s"
  using assms unfolding ids_ok_def by blast

lemma ids_okD:
  assumes "ids_ok s"
  shows "distinct (map pr_id (pendingRetries s))"
    "\<And>p. p \<in> set (pendingRetries s) \<Longrightarrow> pr_id p < next_pr_id s"
    "\<And>c i. held_id s c = Some i \<Longrightarrow> i < next_pr_id s"
    "\<And>c i. held_id s c = Some i \<Longrightarrow> i \<notin> pr_id ` set (pendingRetries s)"
    "\<And>c c' i. c \<noteq> c' \<Longrightarrow> held_id s c = Some i \<Longrightarrow> held_id s c' \<noteq> Some i"
  using assms unfolding ids_ok_def by blast+

text \<open>Releasing a context, or suspending it with the pending retry it held or with none.\<close>

lemma ids_ok_shrink:
  assumes "ids_ok s" "pendingRetries s' = pendingRetries s" "next_pr_id s' = next_pr_id s"
    "held_id s' = (held_id s)(c := h)" "h = None \<or> h = held_id s c"
  shows "ids_ok s'"
proof (rule ids_okI)
  note old = ids_okD [OF assms(1)]
  have sub: "\<And>c' i. held_id s' c' = Some i \<Longrightarrow> held_id s c' = Some i"
    using assms(4,5) by (auto split: if_splits)
  show "distinct (map pr_id (pendingRetries s'))" using old(1) assms(2) by simp
  show "\<And>p. p \<in> set (pendingRetries s') \<Longrightarrow> pr_id p < next_pr_id s'"
    using old(2) assms(2,3) by simp
  show "\<And>c i. held_id s' c = Some i \<Longrightarrow> i < next_pr_id s'"
    using old(3) sub assms(3) by metis
  show "\<And>c i. held_id s' c = Some i \<Longrightarrow> i \<notin> pr_id ` set (pendingRetries s')"
    using old(4) sub assms(2) by metis
  show "\<And>c c' i. c \<noteq> c' \<Longrightarrow> held_id s' c = Some i \<Longrightarrow> held_id s' c' \<noteq> Some i"
    using old(5) sub by metis
qed

lemma ids_ok_cong:
  assumes "map pr_id (pendingRetries s') = map pr_id (pendingRetries s)"
    "next_pr_id s' = next_pr_id s" "workers s' = workers s"
  shows "ids_ok s' = ids_ok s"
proof -
  have set: "pr_id ` set (pendingRetries s') = pr_id ` set (pendingRetries s)"
    using assms(1) by (metis set_map)
  have ball: "\<And>n. (\<forall>p \<in> set (pendingRetries s'). pr_id p < n) \<longleftrightarrow>
      (\<forall>p \<in> set (pendingRetries s). pr_id p < n)"
    using set by (metis (no_types, lifting) image_iff)
  show ?thesis
    unfolding ids_ok_def assms(1,2) held_id_cong [OF assms(3)] set ball ..
qed

lemma ids_ok_retry:
  assumes "ids_ok s" "p \<in> set (pendingRetries s)" "workers s c = None"
    "pendingRetries s' = remove1 p (pendingRetries s)" "next_pr_id s' = next_pr_id s"
    "held_id s' = (held_id s)(c := Some (pr_id p))"
  shows "ids_ok s'"
proof (rule ids_okI)
  note old = ids_okD [OF assms(1)]
  have sub: "set (pendingRetries s') \<subseteq> set (pendingRetries s)"
    unfolding assms(4) by (rule set_remove1_subset)
  have other: "\<And>c' i. c' \<noteq> c \<Longrightarrow> held_id s' c' = Some i \<Longrightarrow> held_id s c' = Some i"
    using assms(6) by simp
  have here: "held_id s' c = Some (pr_id p)" using assms(6) by simp
  have gone: "pr_id p \<notin> pr_id ` set (pendingRetries s')"
    unfolding assms(4) using old(1) assms(2) by (rule remove1_key_notin)
  show "distinct (map pr_id (pendingRetries s'))"
    unfolding assms(4) using old(1) by (rule distinct_map_remove1_key)
  show "\<And>q. q \<in> set (pendingRetries s') \<Longrightarrow> pr_id q < next_pr_id s'"
    using old(2) sub assms(5) by auto
  show "\<And>c' i. held_id s' c' = Some i \<Longrightarrow> i < next_pr_id s'"
  proof -
    fix c' i assume h: "held_id s' c' = Some i"
    show "i < next_pr_id s'"
    proof (cases "c' = c")
      case True
      with h here have "i = pr_id p" by simp
      then show ?thesis using old(2) [OF assms(2)] assms(5) by simp
    next
      case False
      then show ?thesis using old(3) other h assms(5) by metis
    qed
  qed
  show "\<And>c' i. held_id s' c' = Some i \<Longrightarrow> i \<notin> pr_id ` set (pendingRetries s')"
  proof -
    fix c' i assume h: "held_id s' c' = Some i"
    show "i \<notin> pr_id ` set (pendingRetries s')"
    proof (cases "c' = c")
      case True
      with h here have "i = pr_id p" by simp
      then show ?thesis using gone by simp
    next
      case False
      then have "i \<notin> pr_id ` set (pendingRetries s)" using old(4) other h by metis
      then show ?thesis using sub by auto
    qed
  qed
  show "\<And>c1 c2 i. c1 \<noteq> c2 \<Longrightarrow> held_id s' c1 = Some i \<Longrightarrow> held_id s' c2 \<noteq> Some i"
  proof
    fix c1 c2 i assume h: "c1 \<noteq> c2" "held_id s' c1 = Some i" "held_id s' c2 = Some i"
    have in_queue: "pr_id p \<in> pr_id ` set (pendingRetries s)" using assms(2) by simp
    consider "c1 = c" "c2 \<noteq> c" | "c2 = c" "c1 \<noteq> c" | "c1 \<noteq> c" "c2 \<noteq> c" using h(1) by blast
    then show False
    proof cases
      case 1
      then have "i = pr_id p" "held_id s c2 = Some i" using h here other by auto
      then show False using old(4) in_queue by metis
    next
      case 2
      then have "i = pr_id p" "held_id s c1 = Some i" using h here other by auto
      then show False using old(4) in_queue by metis
    next
      case 3
      then have "held_id s c1 = Some i" "held_id s c2 = Some i" using h other by auto
      then show False using old(5) h(1) by metis
    qed
  qed
qed

lemma ids_ok_requeue:
  assumes "ids_ok s" "held_id s c = Some i" "map pr_id (pendingRetries s') = map pr_id (pendingRetries s) @ [i]"
    "next_pr_id s' = next_pr_id s" "held_id s' = (held_id s)(c := None)"
  shows "ids_ok s'"
proof (rule ids_okI)
  note old = ids_okD [OF assms(1)]
  have set: "pr_id ` set (pendingRetries s') = insert i (pr_id ` set (pendingRetries s))"
    using assms(3) by (metis Un_insert_right append_Nil2 list.simps(15) set_append set_map)
  have other: "\<And>c' j. held_id s' c' = Some j \<Longrightarrow> c' \<noteq> c \<and> held_id s c' = Some j"
    using assms(5) by (auto split: if_splits)
  have "distinct (map pr_id (pendingRetries s) @ [i])"
    using old(1) old(4) [OF assms(2)] by (simp add: image_iff)
  then show "distinct (map pr_id (pendingRetries s'))" using assms(3) by simp
  show "\<And>q. q \<in> set (pendingRetries s') \<Longrightarrow> pr_id q < next_pr_id s'"
  proof -
    fix q assume "q \<in> set (pendingRetries s')"
    then have "pr_id q \<in> insert i (pr_id ` set (pendingRetries s))" using set by blast
    then show "pr_id q < next_pr_id s'"
      using old(2) old(3) [OF assms(2)] assms(4) by auto
  qed
  show "\<And>c' j. held_id s' c' = Some j \<Longrightarrow> j < next_pr_id s'"
    using other old(3) assms(4) by metis
  show "\<And>c' j. held_id s' c' = Some j \<Longrightarrow> j \<notin> pr_id ` set (pendingRetries s')"
  proof -
    fix c' j assume h: "held_id s' c' = Some j"
    then have c': "c' \<noteq> c" "held_id s c' = Some j" using other by auto
    then have "j \<noteq> i" using old(5) assms(2) by metis
    moreover have "j \<notin> pr_id ` set (pendingRetries s)" using old(4) c'(2) by metis
    ultimately show "j \<notin> pr_id ` set (pendingRetries s')" using set by simp
  qed
  show "\<And>c1 c2 j. c1 \<noteq> c2 \<Longrightarrow> held_id s' c1 = Some j \<Longrightarrow> held_id s' c2 \<noteq> Some j"
    using other old(5) by metis
qed

lemma ids_ok_enqueue:
  assumes "ids_ok s" "held_id s c = None"
    "map pr_id (pendingRetries s') = map pr_id (pendingRetries s) @ [next_pr_id s]"
    "next_pr_id s' = next_pr_id s + 1" "held_id s' = (held_id s)(c := None)"
  shows "ids_ok s'"
proof (rule ids_okI)
  note old = ids_okD [OF assms(1)]
  have set: "pr_id ` set (pendingRetries s') = insert (next_pr_id s) (pr_id ` set (pendingRetries s))"
    using assms(3) by (metis Un_insert_right append_Nil2 list.simps(15) set_append set_map)
  have same: "held_id s' = held_id s" using assms(2,5) by (auto simp: fun_eq_iff)
  have fresh: "next_pr_id s \<notin> pr_id ` set (pendingRetries s)" using old(2) by fastforce
  then have "distinct (map pr_id (pendingRetries s) @ [next_pr_id s])" using old(1) by simp
  then show "distinct (map pr_id (pendingRetries s'))" using assms(3) by simp
  show "\<And>q. q \<in> set (pendingRetries s') \<Longrightarrow> pr_id q < next_pr_id s'"
  proof -
    fix q assume "q \<in> set (pendingRetries s')"
    then have "pr_id q \<in> insert (next_pr_id s) (pr_id ` set (pendingRetries s))" using set by blast
    then show "pr_id q < next_pr_id s'" using old(2) assms(4) by fastforce
  qed
  show "\<And>c' j. held_id s' c' = Some j \<Longrightarrow> j < next_pr_id s'"
    using old(3) assms(4) same by (metis less_SucI Suc_eq_plus1)
  show "\<And>c' j. held_id s' c' = Some j \<Longrightarrow> j \<notin> pr_id ` set (pendingRetries s')"
  proof -
    fix c' j assume h: "held_id s' c' = Some j"
    then have "j < next_pr_id s" "j \<notin> pr_id ` set (pendingRetries s)"
      using old(3,4) same by metis+
    then show "j \<notin> pr_id ` set (pendingRetries s')" using set by simp
  qed
  show "\<And>c1 c2 j. c1 \<noteq> c2 \<Longrightarrow> held_id s' c1 = Some j \<Longrightarrow> held_id s' c2 \<noteq> Some j"
    using old(5) same by metis
qed

lemma prim_ids_ok:
  assumes "prim cfg s s'" "busy_ok s" "ids_ok s"
  shows "ids_ok s'"
  using assms(1)
proof (cases rule: prim.cases)
  case p_tick
  then show ?thesis using assms(3) ids_ok_cong [of s' s] by simp
next
  case p_finish
  then show ?thesis using assms(3) ids_ok_cong [of s' s] by (simp add: finish_def)
next
  case p_abort
  then show ?thesis using assms(3) ids_ok_cong [of s' s] by (simp add: finish_def abort_def)
next
  case (p_context c)
  then show ?thesis using assms(3) ids_ok_cong [of s' s] by simp
next
  case (p_forget xs p ys)
  then show ?thesis using assms(3) ids_ok_cong [of s' s] by simp
next
  case (p_retry p c sleeps)
  let ?s0 = "s\<lparr> pendingRetries := remove1 p (pendingRetries s), flows := set_add c (flows s) \<rparr>"
  have free: "workers s c = None" using p_retry(4) assms(2) by (auto simp: busy_ok_def)
  have "suspended c (Some p) ?s0 s'"
    unfolding p_retry(1) by (rule hfe_start_retry_suspended)
  then have "held_id s' = (held_id ?s0)(c := Some (pr_id p))"
    using held_id_suspended by fastforce
  moreover have "held_id ?s0 = held_id s" by (rule held_id_cong) simp
  ultimately have h: "held_id s' = (held_id s)(c := Some (pr_id p))" by simp
  show ?thesis
    using assms(3) p_retry(3) free _ _ h
    by (rule ids_ok_retry) (simp_all add: p_retry(1))
next
  case (p_fresh c sleeps)
  let ?s0 = "s\<lparr> flows := set_add c (flows s) \<rparr>"
  have free: "held_id s c = None"
    using p_fresh(4) assms(2) by (auto simp: busy_ok_def held_id_def split: option.splits)
  have same: "held_id ?s0 = held_id s" by (rule held_id_cong) simp
  have "held_id s' = (held_id s)(c := None)"
    using hfe_start_cases [of c None ?s0 cfg sleeps] held_id_suspended [of c None ?s0 s']
      held_id_released [of c ?s0 s'] same
    by (auto simp: p_fresh(1))
  then show ?thesis
    using assms(3) by (intro ids_ok_shrink [of s s' c None]) (simp_all add: p_fresh(1))
next
  case (p_wake c pr canceled)
  have here: "held_id s c = map_option pr_id pr" using p_wake(2) by (simp add: held_id_def)
  have "held_id s' = (held_id s)(c := map_option pr_id pr) \<or> held_id s' = (held_id s)(c := None)"
    using hfe_after_sleep_cases [of c pr s cfg canceled] held_id_suspended [of c pr s s']
      held_id_released [of c s s']
    by (auto simp: p_wake(1))
  then obtain h where "held_id s' = (held_id s)(c := h)" "h = None \<or> h = held_id s c"
    using here by metis
  then show ?thesis
    using assms(3) by (intro ids_ok_shrink [of s s' c h]) (simp_all add: p_wake(1))
next
  case (p_settle c attempts work pr out time)
  have "held_id s' = (held_id s)(c := held_id s c)"
    using p_settle(2) by (auto simp: p_settle(1) settle_def Let_def held_id_def fun_eq_iff)
  then show ?thesis
    using assms(3)
    by (intro ids_ok_shrink [of s s' c "held_id s c"]) (simp_all add: p_settle(1) settle_def Let_def)
next
  case (p_continue c attempts res pr)
  have here: "held_id s c = map_option pr_id pr" using p_continue(2) by (simp add: held_id_def)
  have h: "held_id s' = (held_id s)(c := None)"
    by (auto simp: p_continue(1) hfe_finish_def release_def held_id_def fun_eq_iff
        split: option.splits)
  show ?thesis
  proof (cases "\<exists>r. res = Some r \<and> 0 < attempts")
    case False
    then have "pendingRetries s' = pendingRetries s" "next_pr_id s' = next_pr_id s"
      by (auto simp: p_continue(1) hfe_finish_def split: option.splits)
    then show ?thesis
      using assms(3) h by (intro ids_ok_shrink [of s s' c None]) simp_all
  next
    case True
    then obtain r where r: "res = Some r" "0 < attempts" by blast
    show ?thesis
    proof (cases pr)
      case None
      have "held_id s c = None" using here None by simp
      moreover have "map pr_id (pendingRetries s') = map pr_id (pendingRetries s) @ [next_pr_id s]"
        "next_pr_id s' = next_pr_id s + 1"
        using r None by (simp_all add: p_continue(1) hfe_finish_def)
      ultimately show ?thesis using assms(3) h by (intro ids_ok_enqueue [of s c s']) simp_all
    next
      case (Some p)
      have "held_id s c = Some (pr_id p)" using here Some by simp
      moreover have "map pr_id (pendingRetries s') = map pr_id (pendingRetries s) @ [pr_id p]"
        "next_pr_id s' = next_pr_id s"
        using r Some by (simp_all add: p_continue(1) hfe_finish_def)
      ultimately show ?thesis using assms(3) h by (intro ids_ok_requeue [of s c "pr_id p" s']) simp_all
    qed
  qed
qed

lemma prim_well_formed:
  "prim cfg s s' \<Longrightarrow> well_formed s \<Longrightarrow> well_formed s'"
  unfolding well_formed_def
  using prim_busy_ok prim_ids_ok prim_promise_ok by blast

lemma prims_well_formed:
  "(prim cfg)\<^sup>*\<^sup>* s s' \<Longrightarrow> well_formed s \<Longrightarrow> well_formed s'"
  by (induction rule: rtranclp_induct) (auto intro: prim_well_formed)

lemma step_well_formed:
  assumes "step cfg s e = Some s'" "well_formed s"
  shows "well_formed s'"
proof -
  have "distinct (map pr_id (pendingRetries s))"
    using assms(2) by (simp add: well_formed_def ids_ok_def)
  with assms(1) have "(prim cfg)\<^sup>*\<^sup>* s s'" by (rule step_prims)
  then show ?thesis using assms(2) by (rule prims_well_formed)
qed

lemma run_well_formed:
  "run cfg s evs = Some s' \<Longrightarrow> well_formed s \<Longrightarrow> well_formed s'"
proof (induction evs arbitrary: s)
  case Nil
  then show ?case by simp
next
  case (Cons e evs)
  then obtain s1 where s1: "step cfg s e = Some s1" "run cfg s1 evs = Some s'"
    by (auto split: option.splits)
  then show ?case using Cons.IH Cons.prems(2) step_well_formed by blast
qed

lemma well_formed_init: "well_formed (init_orchestrator ctxs d)"
  by (simp add: well_formed_def busy_ok_def ids_ok_def promise_ok_def init_orchestrator_def
      held_id_def)

lemma well_formed_start:
  "well_formed (startFlowOrchestrator cfg sleeps inits signal_aborted ctxs d)"
proof (cases signal_aborted)
  case True
  then show ?thesis
    by (simp add: startFlowOrchestrator_def well_formed_def busy_ok_def ids_ok_def promise_ok_def
        init_orchestrator_def held_id_def)
next
  case False
  have "(prim cfg)\<^sup>*\<^sup>* (init_orchestrator ctxs d) (startFlows cfg sleeps inits (init_orchestrator ctxs d))"
    by (rule startFlows_prims) (simp add: init_orchestrator_def)
  then show ?thesis
    using False well_formed_init by (simp add: startFlowOrchestrator_def prims_well_formed)
qed

text \<open>
  Claim C2, amended. In every state a cycle can reach, whatever the handlers of the user
  do and whenever sleeps end and the signal fires: once the signal has fired the promise
  is resolved (the listener \<^verbatim>\<open>finish\<close> resolves it at once, whether or not executors are in
  flight); and when the promise is resolved and the signal has not fired, the executor
  has called \<^verbatim>\<open>done()\<close>, no call of \<^verbatim>\<open>handleFlowExecution\<close> is suspended on any context, and
  no retry is pending.
\<close>

theorem promise_resolved_aborted_or_idle:
  assumes "run cfg (startFlowOrchestrator cfg sleeps inits signal_aborted ctxs d) evs = Some s"
  shows "(aborted s \<longrightarrow> resolved s) \<and>
         (resolved s \<longrightarrow>
            aborted s \<or>
            (executorDone s \<and> (\<forall>c. workers s c = None) \<and> flows s = [] \<and> pendingRetries s = []))"
proof -
  have "well_formed s"
    using assms well_formed_start by (rule run_well_formed)
  then have b: "dom (workers s) = set (flows s)" and p: "promise_ok s"
    by (simp_all add: well_formed_def busy_ok_def)
  have "flows s = [] \<Longrightarrow> \<forall>c. workers s c = None"
    using b by (auto simp: dom_def)
  with p show ?thesis unfolding promise_ok_def by blast
qed

lemma single_page_cycle:
  "map_option (\<lambda>s. (resolved s, aborted s)) (run single_page_config single_page_start single_page_succeeds) =
     Some (True, False)"
  by code_simp

theorem promise_resolved_aborted_or_idle_witness:
  "(case run single_page_config single_page_start single_page_succeeds of
      None \<Rightarrow> False
    | Some s \<Rightarrow>
        resolved s \<and> \<not> aborted s \<and> executorDone s \<and> (\<forall>c. workers s c = None) \<and>
        pendingRetries s = [])"
proof -
  from single_page_cycle obtain s where
    s: "run single_page_config single_page_start single_page_succeeds = Some s"
    and r: "resolved s" "\<not> aborted s"
    by auto
  from s have "run single_page_config
      (startFlowOrchestrator single_page_config (\<lambda>c. True) (\<lambda>k. InitStopped) False [0]
         (init_driver single_page_config 0 [])) single_page_succeeds = Some s"
    by (simp add: single_page_start_def)
  from promise_resolved_aborted_or_idle [OF this] r show ?thesis by (simp add: s)
qed

section \<open>Properties of two concrete cycles\<close>

lemma complete_needs_skipPageIfPossible:
  "\<not> skipPageIfPossible pol \<Longrightarrow> \<not> fst (fc_complete pol lp fc)"
  by (simp add: fc_complete_def canSkipPage_def Let_def split: option.splits prod.splits)

text \<open>
  Claim C1, on the code. In the TotalPages cycle with \<^verbatim>\<open>concurrency = 3\<close>,
  \<^verbatim>\<open>paginationStart = 1\<close>, defaults elsewhere, \<^verbatim>\<open>resolveTotalPages\<close> returning 5 and no failure,
  the promise resolves with no context busy after exactly the five fetches of the pages
  1, 2, 3, 4, 5; the summary has \<^verbatim>\<open>totalPageCount = 5\<close> and \<^verbatim>\<open>failedPageList = []\<close>, but
  \<^verbatim>\<open>completed\<close> is \<^verbatim>\<open>false\<close>. With this configuration \<^verbatim>\<open>completed\<close> is \<^verbatim>\<open>false\<close> whatever the
  cycle did: \<^verbatim>\<open>failCounter.complete()\<close> returns \<^verbatim>\<open>canSkipPage()\<close>, which is \<^verbatim>\<open>false\<close> when
  \<^verbatim>\<open>skipPageIfPossible\<close> is.
\<close>

theorem totalPages_all_succeed_not_completed:
  "map_option observe (run totalPages_config totalPages_start all_succeed) =
     Some (True, [], [RetryPage 1, RetryPage 2, RetryPage 3, RetryPage 4, RetryPage 5], 5, [], False)
   \<and> cs_completed (cycle_summary totalPages_config now d) = False"
proof
  show "map_option observe (run totalPages_config totalPages_start all_succeed) =
     Some (True, [], [RetryPage 1, RetryPage 2, RetryPage 3, RetryPage 4, RetryPage 5], 5, [], False)"
    by code_simp
  have "\<not> skipPageIfPossible (errorHandlingPolicy totalPages_config)"
    by (simp add: totalPages_config_def DEFAULT_errorHandlingPolicy_def)
  then show "cs_completed (cycle_summary totalPages_config now d) = False"
    using complete_needs_skipPageIfPossible
    by (simp add: cycle_summary_def summarize_def setTotalTime_def totalPages_config_def Let_def)
qed

text \<open>
  Claim C2 as stated fails. The signal fires right after the cycle has started: the promise
  is resolved, while the executor of context 0 is waiting for \<^verbatim>\<open>fetchHandler\<close> (page 1).
\<close>

theorem abort_resolves_with_executor_in_flight_counterexample:
  "map_option (\<lambda>s. (resolved s, flows s, workers s 0)) (run totalPages_config totalPages_start [Abort]) =
     Some (True, [0], Some (Fetching 2 (RetryPage 1) None))"
  by code_simp

end
